theory Spec2Isabelle
  imports Complex_Main
begin

section \<open>Data model (types.ts)\<close>

text \<open>
  The interfaces of the type declarations become records. A JavaScript \<open>number\<close> that
  holds a time (\<open>Date.now()\<close>, \<open>stats.mtimeMs\<close>) is a \<open>real\<close>: the code only stores
  and compares such values, and the sign of \<open>b - a\<close> on finite doubles is the order of
  the two numbers. Field names follow the source; where two interfaces share a field
  name the later one is prefixed (\<open>v_\<close> for a history version, \<open>h_\<close> for a history,
  \<open>t_\<close> for a task), and \<open>file\<close> is \<open>planFile\<close> because \<open>file\<close> is reserved.
\<close>

datatype update_type = Created | Modified | Deleted

record PlanFile =
  filename :: string
  path :: string
  content :: string
  lastModified :: real

record PlanUpdate =
  type :: update_type
  planFile :: PlanFile
  timestamp :: real

record version =
  v_content :: string
  v_timestamp :: real

record PlanHistory =
  h_filename :: string
  versions :: "version list"

datatype status = Pending | InProgress | Completed

record TodoTask =
  t_content :: string
  activeForm :: string
  t_status :: status
  t_timestamp :: real

record TodoState =
  sessionId :: string
  tasks :: "TodoTask list"
  lastUpdated :: real

section \<open>Update hub (server.ts)\<close>

text \<open>
  \<open>startServer\<close> keeps \<open>planHistory\<close> (a Map from filename to PlanHistory) and
  \<open>clients\<close> (the set of open event-stream responses, in insertion order) in its
  closure. The hub state is a record of both, plus the frames written so far to each
  client. A frame is the message handed to \<open>broadcastUpdate\<close>; its JSON text is not
  modelled.
\<close>

datatype message = PlanMessage PlanUpdate | TodoMessage TodoState

record hub =
  planHistory :: "string \<rightharpoonup> PlanHistory"
  clients :: "nat list"
  written :: "(nat \<times> message) list"

definition broadcastUpdate :: "hub \<Rightarrow> message \<Rightarrow> hub" where
  "broadcastUpdate h m = h\<lparr>written := written h @ map (\<lambda>client. (client, m)) (clients h)\<rparr>"

text \<open>
  The handler of \<open>planWatcher.on('update')\<close>: unless the update is a deletion, fetch
  the file's history (or a fresh one with no versions), push the new version, remove
  the first version when there are more than ten, and store the history; then
  broadcast the update.
\<close>

definition onPlanUpdate :: "hub \<Rightarrow> PlanUpdate \<Rightarrow> hub" where
  "onPlanUpdate h update =
     (let h1 =
        (if type update \<noteq> Deleted then
           let history =
                 (case planHistory h (filename (planFile update)) of
                    Some x \<Rightarrow> x
                  | None \<Rightarrow> \<lparr>h_filename = filename (planFile update), versions = []\<rparr>);
               pushed = history\<lparr>versions := versions history @
                 [\<lparr>v_content = content (planFile update), v_timestamp = timestamp update\<rparr>]\<rparr>;
               shifted =
                 (if length (versions pushed) > 10
                  then pushed\<lparr>versions := tl (versions pushed)\<rparr> else pushed)
           in h\<lparr>planHistory := (planHistory h)(filename (planFile update) \<mapsto> shifted)\<rparr>
         else h)
      in broadcastUpdate h1 (PlanMessage update))"

definition onTodoUpdate :: "hub \<Rightarrow> TodoState \<Rightarrow> hub" where
  "onTodoUpdate h state = broadcastUpdate h (TodoMessage state)"

text \<open>
  Everything that reaches the hub: the two watcher events, a client opening
  \<open>/api/stream\<close> and a client closing its connection.
\<close>

datatype hub_event =
    PlanEvent PlanUpdate
  | TodoEvent TodoState
  | Connect nat
  | Disconnect nat

fun hub_step :: "hub \<Rightarrow> hub_event \<Rightarrow> hub" where
  "hub_step h (PlanEvent update) = onPlanUpdate h update"
| "hub_step h (TodoEvent state) = onTodoUpdate h state"
| "hub_step h (Connect c) = (if c \<in> set (clients h) then h else h\<lparr>clients := clients h @ [c]\<rparr>)"
| "hub_step h (Disconnect c) = h\<lparr>clients := removeAll c (clients h)\<rparr>"

definition hub_start :: hub where
  "hub_start = \<lparr>planHistory = Map.empty, clients = [], written = []\<rparr>"

definition hub_run :: "hub \<Rightarrow> hub_event list \<Rightarrow> hub" where
  "hub_run h evs = foldl hub_step h evs"

text \<open>What \<open>GET /api/plans/:filename/history\<close> would list: no history, no versions.\<close>

definition versions_of :: "hub \<Rightarrow> string \<Rightarrow> version list" where
  "versions_of h f = (case planHistory h f of None \<Rightarrow> [] | Some x \<Rightarrow> versions x)"

subsection \<open>The specification's reading of the history\<close>

text \<open>
  The \<open>{content, timestamp}\<close> pairs of the non-deleted updates of one filename, in
  arrival order, and the most recent \<open>n\<close> entries of a sequence.
\<close>

definition arrivals :: "string \<Rightarrow> hub_event list \<Rightarrow> version list" where
  "arrivals f evs =
     concat (map (\<lambda>e. case e of
        PlanEvent u \<Rightarrow>
          (if type u \<noteq> Deleted \<and> filename (planFile u) = f
           then [\<lparr>v_content = content (planFile u), v_timestamp = timestamp u\<rparr>] else [])
      | _ \<Rightarrow> []) evs)"

definition most_recent :: "nat \<Rightarrow> 'a list \<Rightarrow> 'a list" where
  "most_recent n xs = drop (length xs - n) xs"

definition modification :: "string \<Rightarrow> string \<Rightarrow> real \<Rightarrow> hub_event" where
  "modification f c t =
     PlanEvent \<lparr>type = Modified,
       planFile = \<lparr>filename = f, path = ''plans/'' @ f, content = c, lastModified = t\<rparr>,
       timestamp = t\<rparr>"

section \<open>Strings\<close>

text \<open>
  Strings are Isabelle strings: a \<open>char\<close> stands for one UTF-16 code unit below 128.
  Text outside ASCII is not modelled. \<open>js_split sep s\<close> is \<open>s.split(sep)\<close> for a
  one-character separator (it never returns the empty array), \<open>js_join sep ws\<close> is
  \<open>ws.join(sep)\<close>, and \<open>endsWith s suffix\<close> is \<open>s.endsWith(suffix)\<close>.
\<close>

fun js_split :: "char \<Rightarrow> string \<Rightarrow> string list" where
  "js_split sep [] = [[]]"
| "js_split sep (c # cs) =
     (if c = sep then [] # js_split sep cs
      else (c # hd (js_split sep cs)) # tl (js_split sep cs))"

fun js_join :: "char \<Rightarrow> string list \<Rightarrow> string" where
  "js_join sep [] = []"
| "js_join sep [w] = w"
| "js_join sep (w # ws) = w @ sep # js_join sep ws"

definition endsWith :: "string \<Rightarrow> string \<Rightarrow> bool" where
  "endsWith s suffix \<longleftrightarrow>
     length suffix \<le> length s \<and> drop (length s - length suffix) s = suffix"

section \<open>Todo watcher (watchers/todo-watcher.ts)\<close>

subsection \<open>Parsed JSON and the todos directory\<close>

text \<open>
  A value returned by \<open>JSON.parse\<close>. An object is the list of its own properties, each
  key once. \<open>property v k\<close> is the property read \<open>v.k\<close> on a value other than \<open>null\<close>,
  for the two names the watcher reads (\<open>content\<close>, \<open>status\<close>): \<open>None\<close> is
  \<open>undefined\<close>, which is what every value but an object with that key gives.
\<close>

datatype json =
    JNull
  | JBool bool
  | JNumber real
  | JString string
  | JArray "json list"
  | JObject "(string \<times> json) list"

fun property :: "json \<Rightarrow> string \<Rightarrow> json option" where
  "property (JObject kvs) k = map_of kvs k"
| "property _ k = None"

text \<open>
  What the code can throw inside its \<open>try\<close> blocks: a rejected \<open>fs\<close> promise, the
  SyntaxError of \<open>JSON.parse\<close>, and the TypeError of reading a property of \<open>null\<close> or
  \<open>undefined\<close> or of calling something that is not a function.
\<close>

datatype error = IOError | SyntaxError | TypeError

text \<open>
  The todos directory as the watcher sees it during one call. \<open>readdir\<close> is the
  listing (\<open>None\<close> when \<open>fs.readdir\<close> rejects), \<open>stat f\<close> the \<open>mtimeMs\<close> of the file
  named \<open>f\<close> (\<open>None\<close> when \<open>fs.stat\<close> rejects) and \<open>readJSON f\<close> the outcome of
  \<open>fs.readFile\<close> followed by \<open>JSON.parse\<close>: the read rejects, the parser throws, or a
  value comes back. The text of a file is not modelled.
\<close>

datatype file_content = Unreadable | Malformed | Parsed json

record todos_dir =
  readdir :: "string list option"
  stat :: "string \<Rightarrow> real option"
  readJSON :: "string \<Rightarrow> file_content"

subsection \<open>generateActiveForm\<close>

text \<open>
  The regular expression \<open>/[^aeiou][aeiou][^aeiou]$/\<close> looks at the last three
  characters: one that is not a lower-case vowel, a lower-case vowel, one that is not a
  lower-case vowel. \<open>slice(0, -1)\<close> is \<open>butlast\<close>, \<open>slice(-1)\<close> the last character (or
  nothing), \<open>words.slice(1)\<close> is \<open>tl\<close>.
\<close>

definition vowel :: "char \<Rightarrow> bool" where
  "vowel c \<longleftrightarrow> c \<in> set ''aeiou''"

definition matches_cvc :: "string \<Rightarrow> bool" where
  "matches_cvc w \<longleftrightarrow>
     (case rev w of
        c3 # c2 # c1 # _ \<Rightarrow> \<not> vowel c1 \<and> vowel c2 \<and> \<not> vowel c3
      | _ \<Rightarrow> False)"

definition activeWord :: "string \<Rightarrow> string" where
  "activeWord firstWord =
     (if endsWith firstWord ''e'' then butlast firstWord @ ''ing''
      else if matches_cvc firstWord
        then firstWord @ drop (length firstWord - 1) firstWord @ ''ing''
      else firstWord @ ''ing'')"

definition generateActiveForm :: "string \<Rightarrow> string" where
  "generateActiveForm content' =
     (let words = js_split CHR '' '' content' in
      if length words = 0 then content'
      else activeWord (hd words) @ '' '' @ js_join CHR '' '' (tl words))"

subsection \<open>Mapping the external records\<close>

text \<open>
  The callback of \<open>claudeTodos.map\<close>, the same text in \<open>loadState\<close> and in
  \<open>loadSession\<close>. Reading \<open>todo.content\<close> throws when \<open>todo\<close> is \<open>null\<close>, and
  \<open>generateActiveForm\<close> throws at \<open>content.split\<close> unless the content is a string.
  \<open>claudeTodos.map\<close> itself throws unless the parsed value is an array, and stops at
  the first element whose callback throws.
\<close>

definition mapTodo :: "real \<Rightarrow> json \<Rightarrow> error + TodoTask" where
  "mapTodo mtime todo =
     (if todo = JNull then Inl TypeError
      else case property todo ''content'' of
          Some (JString c) \<Rightarrow>
            Inr \<lparr>t_content = c,
                 activeForm = generateActiveForm c,
                 t_status =
                   (if property todo ''status'' = Some (JString ''pending'') then Pending
                    else if property todo ''status'' = Some (JString ''in_progress'') then InProgress
                    else Completed),
                 t_timestamp = mtime\<rparr>
        | _ \<Rightarrow> Inl TypeError)"

fun map_throwing :: "('a \<Rightarrow> error + 'b) \<Rightarrow> 'a list \<Rightarrow> error + 'b list" where
  "map_throwing f [] = Inr []"
| "map_throwing f (x # xs) =
     (case f x of
        Inl e \<Rightarrow> Inl e
      | Inr y \<Rightarrow> (case map_throwing f xs of Inl e \<Rightarrow> Inl e | Inr ys \<Rightarrow> Inr (y # ys)))"

definition mapTodos :: "real \<Rightarrow> json \<Rightarrow> error + TodoTask list" where
  "mapTodos mtime claudeTodos =
     (case claudeTodos of
        JArray todos \<Rightarrow> map_throwing (mapTodo mtime) todos
      | _ \<Rightarrow> Inl TypeError)"

subsection \<open>loadState\<close>

text \<open>
  \<open>Promise.all\<close> over the stats of the JSON files rejects when one \<open>fs.stat\<close> rejects.
  \<open>sort((a, b) => b.mtime - a.mtime)\<close> is a stable sort, newest first: \<open>sort_key\<close> on
  the negated time.

  The body of the \<open>try\<close> block returns how it ended together with \<open>currentState\<close> at
  that moment: the field is assigned at two places only, each the last effect of its
  path. The \<open>catch\<close> block logs and changes nothing, so \<open>loadState\<close> leaves the
  watcher with the second component.
\<close>

definition fileStats :: "todos_dir \<Rightarrow> string list \<Rightarrow> error + (string \<times> real) list" where
  "fileStats d jsonFiles =
     map_throwing (\<lambda>f. case stat d f of None \<Rightarrow> Inl IOError | Some m \<Rightarrow> Inr (f, m)) jsonFiles"

definition newest_first :: "(string \<times> real) list \<Rightarrow> (string \<times> real) list" where
  "newest_first stats = sort_key (\<lambda>s. - snd s) stats"

definition loadState_try ::
  "todos_dir \<Rightarrow> real \<Rightarrow> TodoState option \<Rightarrow> (error + unit) \<times> TodoState option" where
  "loadState_try d now currentState =
     (case readdir d of
        None \<Rightarrow> (Inl IOError, currentState)
      | Some files \<Rightarrow>
          let jsonFiles = filter (\<lambda>f. endsWith f ''.json'') files in
          if length jsonFiles = 0
          then (Inr (), Some \<lparr>sessionId = ''no-session'', tasks = [], lastUpdated = now\<rparr>)
          else
            (case fileStats d jsonFiles of
               Inl e \<Rightarrow> (Inl e, currentState)
             | Inr stats \<Rightarrow>
                 let mostRecent = hd (newest_first stats) in
                 (case readJSON d (fst mostRecent) of
                    Unreadable \<Rightarrow> (Inl IOError, currentState)
                  | Malformed \<Rightarrow> (Inl SyntaxError, currentState)
                  | Parsed claudeTodos \<Rightarrow>
                      (case mapTodos (snd mostRecent) claudeTodos of
                         Inl e \<Rightarrow> (Inl e, currentState)
                       | Inr ts \<Rightarrow>
                           (Inr (),
                            Some \<lparr>sessionId = hd (js_split CHR ''-'' (fst mostRecent)),
                                  tasks = ts,
                                  lastUpdated = snd mostRecent\<rparr>)))))"

definition loadState :: "todos_dir \<Rightarrow> real \<Rightarrow> TodoState option \<Rightarrow> TodoState option" where
  "loadState d now currentState = snd (loadState_try d now currentState)"

text \<open>
  The file \<open>loadState\<close> selects, when the listing and every stat succeed and there is a
  JSON file at all.
\<close>

definition selected :: "todos_dir \<Rightarrow> string option" where
  "selected d =
     (case readdir d of
        None \<Rightarrow> None
      | Some files \<Rightarrow>
          (case fileStats d (filter (\<lambda>f. endsWith f ''.json'') files) of
             Inl e \<Rightarrow> None
           | Inr [] \<Rightarrow> None
           | Inr stats \<Rightarrow> Some (fst (hd (newest_first stats)))))"

subsection \<open>loadSession\<close>

definition loadSession :: "todos_dir \<Rightarrow> string \<Rightarrow> TodoState option" where
  "loadSession d name =
     (case readJSON d name of
        Unreadable \<Rightarrow> None
      | Malformed \<Rightarrow> None
      | Parsed claudeTodos \<Rightarrow>
          (case stat d name of
             None \<Rightarrow> None
           | Some mtimeMs \<Rightarrow>
               (case mapTodos mtimeMs claudeTodos of
                  Inl e \<Rightarrow> None
                | Inr ts \<Rightarrow>
                    Some \<lparr>sessionId = hd (js_split CHR ''-'' name),
                          tasks = ts,
                          lastUpdated = mtimeMs\<rparr>)))"

text \<open>
  The specification's status rule, on the external record: \<open>pending\<close> and
  \<open>in_progress\<close> pass through, anything else is completed.
\<close>

definition permissive_status :: "json \<Rightarrow> status" where
  "permissive_status todo =
     (case property todo ''status'' of
        Some (JString s) \<Rightarrow>
          (if s = ''pending'' then Pending
           else if s = ''in_progress'' then InProgress else Completed)
      | _ \<Rightarrow> Completed)"

subsection \<open>listSessions\<close>

record session =
  s_filename :: string
  s_lastUpdated :: real
  taskCount :: nat

definition session_of :: "todos_dir \<Rightarrow> string \<Rightarrow> error + session" where
  "session_of d f =
     (case stat d f of
        None \<Rightarrow> Inl IOError
      | Some mtimeMs \<Rightarrow>
          (case readJSON d f of
             Unreadable \<Rightarrow> Inl IOError
           | Malformed \<Rightarrow> Inl SyntaxError
           | Parsed todos \<Rightarrow>
               Inr \<lparr>s_filename = f,
                    s_lastUpdated = mtimeMs,
                    taskCount = (case todos of JArray xs \<Rightarrow> length xs | _ \<Rightarrow> 0)\<rparr>))"

definition listSessions_try :: "todos_dir \<Rightarrow> error + session list" where
  "listSessions_try d =
     (case readdir d of
        None \<Rightarrow> Inl IOError
      | Some files \<Rightarrow>
          (case map_throwing (session_of d) (filter (\<lambda>f. endsWith f ''.json'') files) of
             Inl e \<Rightarrow> Inl e
           | Inr sessions \<Rightarrow>
               Inr (take 50 (sort_key (\<lambda>s. - s_lastUpdated s)
                      (filter (\<lambda>s. taskCount s > 0) sessions)))))"

definition listSessions :: "todos_dir \<Rightarrow> session list" where
  "listSessions d = (case listSessions_try d of Inl e \<Rightarrow> [] | Inr sessions \<Rightarrow> sessions)"

subsection \<open>Sample directories\<close>

text \<open>
  Two directories used at concrete inputs below: one whose newest session file is
  well-formed (beside a session with no tasks and a file that is not JSON), one whose
  newest session file is malformed.
\<close>

definition sample_todos :: json where
  "sample_todos =
     JArray [JObject [(''content'', JString ''Write tests''), (''status'', JString ''pending'')],
             JObject [(''content'', JString ''Run build''), (''status'', JString ''bogus'')]]"

definition sample_dir :: todos_dir where
  "sample_dir =
     \<lparr>readdir = Some [''a1-x.json'', ''empty-0.json'', ''notes.txt''],
      stat = [''a1-x.json'' \<mapsto> 20, ''empty-0.json'' \<mapsto> 10, ''notes.txt'' \<mapsto> 30],
      readJSON = (\<lambda>f. if f = ''a1-x.json'' then Parsed sample_todos
                      else if f = ''empty-0.json'' then Parsed (JArray [])
                      else Unreadable)\<rparr>"

definition broken_dir :: todos_dir where
  "broken_dir =
     \<lparr>readdir = Some [''a1-x.json'', ''b2-y.json''],
      stat = [''a1-x.json'' \<mapsto> 20, ''b2-y.json'' \<mapsto> 40],
      readJSON = (\<lambda>f. if f = ''a1-x.json'' then Parsed sample_todos
                      else if f = ''b2-y.json'' then Malformed
                      else Unreadable)\<rparr>"

definition sample_state :: TodoState where
  "sample_state =
     \<lparr>sessionId = ''a1'',
      tasks = [\<lparr>t_content = ''Write tests'', activeForm = ''Writing tests'',
                 t_status = Pending, t_timestamp = 20\<rparr>,
               \<lparr>t_content = ''Run build'', activeForm = ''Running build'',
                 t_status = Completed, t_timestamp = 20\<rparr>],
      lastUpdated = 20\<rparr>"


text \<open>
  A directory of 52 session files of one task each, listed newest first: the file
  named by the character \<open>c\<close> was modified at time \<open>of_char c\<close>.
\<close>

definition crowded_dir :: todos_dir where
  "crowded_dir =
     \<lparr>readdir = Some (map (\<lambda>c. c # ''.json'')
                   ''zyxwvutsrqponmlkjihgfedcbaZYXWVUTSRQPONMLKJIHGFEDCBA''),
      stat = (\<lambda>f. case f of [] \<Rightarrow> None | c # _ \<Rightarrow> Some (real (of_char c))),
      readJSON = (\<lambda>f. Parsed (JArray [JNull]))\<rparr>"

subsection \<open>The specification's reading of the active form\<close>

text \<open>
  Split on spaces, inflect the first word (by \<open>activeWord\<close>, the code's three cases),
  and join the words again with single spaces.
\<close>

definition rejoined_activeForm :: "string \<Rightarrow> string" where
  "rejoined_activeForm content' =
     (let words = js_split CHR '' '' content'
      in js_join CHR '' '' (activeWord (hd words) # tl words))"

subsection \<open>calculateStats\<close>

text \<open>
  \<open>completed / total\<close> and \<open>\<dots> * 100\<close> are operations on IEEE 754 doubles: each
  returns the exact result rounded to the nearest double, ties to the even
  significand. A finite double is a rational number, so the model computes with exact
  rationals and rounds after each operation. \<open>bits n\<close> is the length of the binary
  numeral of \<open>n\<close>; \<open>binade x\<close> is the \<open>e\<close> with \<open>2^e \<le> |x| < 2^(e+1)\<close>;
  \<open>double x\<close> keeps 53 significant bits of \<open>x\<close>. Overflow and subnormal numbers are
  not modelled: the operands here are array lengths and their quotients, between
  \<open>2^-32\<close> and \<open>100\<close>. \<open>Math.round\<close> returns the nearest integer, the larger one at a
  tie.
\<close>

function bits :: "int \<Rightarrow> nat" where
  "bits n = (if n \<le> 0 then 0 else Suc (bits (n div 2)))"
  by pat_completeness auto
termination
  by (relation "measure nat") auto

declare bits.simps [simp del]

definition binade :: "rat \<Rightarrow> int" where
  "binade x =
     (let (p, q) = quotient_of \<bar>x\<bar>;
          k = int (bits p) - int (bits q)
      in if 2 powi k \<le> \<bar>x\<bar> then k else k - 1)"

definition ties_to_even :: "rat \<Rightarrow> int" where
  "ties_to_even x =
     (let f = \<lfloor>x\<rfloor>; d = x - of_int f
      in if d < 1 / 2 then f
         else if 1 / 2 < d then f + 1
         else if even f then f else f + 1)"

definition double :: "rat \<Rightarrow> rat" where
  "double x =
     (if x = 0 then 0
      else let e = binade x - 52 in of_int (ties_to_even (x / 2 powi e)) * 2 powi e)"

definition Math_round :: "rat \<Rightarrow> int" where
  "Math_round x = \<lfloor>x + 1 / 2\<rfloor>"

record TodoStats =
  total' :: nat
  pending :: nat
  inProgress :: nat
  completed :: nat
  completionPercentage :: int

definition calculateStats :: "TodoState \<Rightarrow> TodoStats" where
  "calculateStats state =
     (let n_pending = length (filter (\<lambda>t. t_status t = Pending) (tasks state));
          n_inProgress = length (filter (\<lambda>t. t_status t = InProgress) (tasks state));
          n_completed = length (filter (\<lambda>t. t_status t = Completed) (tasks state));
          n_total = length (tasks state)
      in \<lparr>total' = n_total,
          pending = n_pending,
          inProgress = n_inProgress,
          completed = n_completed,
          completionPercentage =
            (if n_total > 0
             then Math_round (double (double (of_nat n_completed / of_nat n_total) * 100))
             else 0)\<rparr>)"

text \<open>
  The specification's percentage: \<open>100 * completed / total\<close> as an exact number,
  rounded to the nearest integer (a tie goes up, as in \<open>Math.round\<close>), and 0 when there
  is no task.
\<close>

definition rounded_percentage :: "nat \<Rightarrow> nat \<Rightarrow> int" where
  "rounded_percentage n_completed n_total =
     (if n_total > 0 then \<lfloor>(100 * of_nat n_completed / of_nat n_total :: rat) + 1 / 2\<rfloor> else 0)"

text \<open>A session of \<open>c\<close> completed tasks followed by \<open>p\<close> pending ones.\<close>

definition session_with :: "nat \<Rightarrow> nat \<Rightarrow> TodoState" where
  "session_with c p =
     \<lparr>sessionId = ''s1'',
      tasks =
        replicate c \<lparr>t_content = ''Run build'', activeForm = ''Running build'',
                      t_status = Completed, t_timestamp = 20\<rparr>
        @ replicate p \<lparr>t_content = ''Write tests'', activeForm = ''Writing tests'',
                        t_status = Pending, t_timestamp = 20\<rparr>,
      lastUpdated = 20\<rparr>"

section \<open>Heading outline extractor (parsers/markdown.ts)\<close>

text \<open>
  \<open>parsePlan\<close> returns \<open>{html, sections, steps}\<close>. The sections are modelled; the
  rendered HTML (the work of the \<open>marked\<close> library) and the flat list of steps are not.
\<close>

record PlanSection =
  level :: nat
  title :: string
  section_content :: string
  section_id :: string

subsection \<open>The heading pattern\<close>

text \<open>
  \<open>line.match(/^(#{1,6})\s+(.+)$/)\<close> on one line. The line must start with one to six
  \<open>#\<close> (a seventh \<open>#\<close> stops the match, since it is not white space), then white
  space. \<open>\s+\<close> is greedy, so the title is what follows the white space, and it must
  hold no line terminator, which \<open>.\<close> does not match. When nothing follows the white
  space, the pattern backtracks by one character and the title is the last white-space
  character (there must be two, and the last must not be a line terminator). Below
  code unit 128, \<open>\s\<close> is tab, line feed, vertical tab, form feed, carriage return and
  space, and the line terminators are line feed and carriage return.
\<close>

definition whitespace :: "char \<Rightarrow> bool" where
  "whitespace c \<longleftrightarrow> c \<in> set [CHR 0x09, CHR 0x0A, CHR 0x0B, CHR 0x0C, CHR 0x0D, CHR '' '']"

definition lineTerminator :: "char \<Rightarrow> bool" where
  "lineTerminator c \<longleftrightarrow> c = CHR 0x0A \<or> c = CHR 0x0D"

definition headingMatch :: "string \<Rightarrow> (string \<times> string) option" where
  "headingMatch line =
     (let hashes = takeWhile (\<lambda>c. c = CHR ''#'') line;
          rest = dropWhile (\<lambda>c. c = CHR ''#'') line;
          spaces = takeWhile whitespace rest;
          after = dropWhile whitespace rest
      in if length hashes < 1 \<or> 6 < length hashes \<or> spaces = [] then None
         else if after \<noteq> [] then
           (if list_ex lineTerminator after then None else Some (hashes, after))
         else if 2 \<le> length spaces \<and> \<not> lineTerminator (last spaces)
           then Some (hashes, [last spaces])
         else None)"

subsection \<open>The slug of a title\<close>

text \<open>
  \<open>title.toLowerCase().replace(/[^a-z0-9]+/g, '-')\<close>. \<open>toLowerCase\<close> maps the
  letters A to Z to a to z and leaves every other character below 128 as it is. The
  global replace scans from the left: a character of \<open>[a-z0-9]\<close> is copied, and at a
  character outside the class the greedy \<open>+\<close> takes all the characters outside the
  class that follow and the whole match becomes one hyphen.
\<close>

definition toLowerCase_char :: "char \<Rightarrow> char" where
  "toLowerCase_char c =
     (case map_of (zip ''ABCDEFGHIJKLMNOPQRSTUVWXYZ'' ''abcdefghijklmnopqrstuvwxyz'') c of
        Some l \<Rightarrow> l
      | None \<Rightarrow> c)"

definition toLowerCase :: "string \<Rightarrow> string" where
  "toLowerCase s = map toLowerCase_char s"

definition az09 :: "char \<Rightarrow> bool" where
  "az09 c \<longleftrightarrow> c \<in> set ''abcdefghijklmnopqrstuvwxyz0123456789''"

function replace_runs :: "string \<Rightarrow> string" where
  "replace_runs [] = []"
| "replace_runs (c # cs) =
     (if az09 c then c # replace_runs cs
      else CHR ''-'' # replace_runs (dropWhile (\<lambda>x. \<not> az09 x) cs))"
  by pat_completeness auto
termination
  by (relation "measure length") (auto simp: length_dropWhile_le less_Suc_eq_le)

definition slug :: "string \<Rightarrow> string" where
  "slug t = replace_runs (toLowerCase t)"

subsection \<open>The scan over the lines\<close>

text \<open>
  The loop of \<open>parsePlan\<close> carries \<open>sections\<close>, \<open>currentSection\<close> and
  \<open>currentContent\<close>. A heading line closes the current section (its content becomes
  the collected lines joined by line feeds) and opens the next; any other line is
  collected when a section is open and dropped when none is. After the loop the last
  section is closed in the same way.
\<close>

record scan =
  sections :: "PlanSection list"
  currentSection :: "PlanSection option"
  currentContent :: "string list"

definition close_section :: "scan \<Rightarrow> PlanSection list" where
  "close_section s =
     (case currentSection s of
        Some cs \<Rightarrow>
          sections s @ [cs\<lparr>section_content := js_join CHR 0x0A (currentContent s)\<rparr>]
      | None \<Rightarrow> sections s)"

definition scan_line :: "scan \<Rightarrow> string \<Rightarrow> scan" where
  "scan_line s line =
     (case headingMatch line of
        Some (hashes, t) \<Rightarrow>
          \<lparr>sections = close_section s,
           currentSection =
             Some \<lparr>level = length hashes, title = t, section_content = [], section_id = slug t\<rparr>,
           currentContent = []\<rparr>
      | None \<Rightarrow>
          (case currentSection s of
             Some cs \<Rightarrow> s\<lparr>currentContent := currentContent s @ [line]\<rparr>
           | None \<Rightarrow> s))"

definition parsePlan :: "string \<Rightarrow> PlanSection list" where
  "parsePlan markdown =
     close_section
       (foldl scan_line \<lparr>sections = [], currentSection = None, currentContent = []\<rparr>
          (js_split CHR 0x0A markdown))"

subsection \<open>The specification's reading of the slug and of the round trip\<close>

text \<open>
  The maximal runs of a string: consecutive characters that are all inside or all
  outside a class. The specification's slug replaces each maximal run outside
  \<open>[a-z0-9]\<close> of the lower-cased title by one hyphen and keeps the other runs.
\<close>

fun maximal_runs :: "('a \<Rightarrow> bool) \<Rightarrow> 'a list \<Rightarrow> 'a list list" where
  "maximal_runs P [] = []"
| "maximal_runs P (x # xs) =
     (case maximal_runs P xs of
        [] \<Rightarrow> [[x]]
      | r # rs \<Rightarrow> (if P x = P (hd r) then (x # r) # rs else [x] # r # rs))"

definition hyphenated :: "string \<Rightarrow> string" where
  "hyphenated t =
     concat (map (\<lambda>r. if az09 (hd r) then r else ''-'') (maximal_runs az09 (toLowerCase t)))"

text \<open>
  The round trip: the heading lines of the input put back before the content of their
  sections, everything joined by line feeds, against the input without the lines
  before its first heading.
\<close>

definition is_heading :: "string \<Rightarrow> bool" where
  "is_heading line \<longleftrightarrow> headingMatch line \<noteq> None"

definition heading_lines :: "string \<Rightarrow> string list" where
  "heading_lines markdown = filter is_heading (js_split CHR 0x0A markdown)"

definition interleave :: "string list \<Rightarrow> PlanSection list \<Rightarrow> string list" where
  "interleave hs secs = concat (map (\<lambda>(h, s). [h, section_content s]) (zip hs secs))"

definition reassemble :: "string list \<Rightarrow> PlanSection list \<Rightarrow> string" where
  "reassemble hs secs = js_join CHR 0x0A (interleave hs secs)"

definition without_preamble :: "string \<Rightarrow> string" where
  "without_preamble markdown =
     js_join CHR 0x0A (dropWhile (\<lambda>l. \<not> is_heading l) (js_split CHR 0x0A markdown))"

text \<open>Every heading line is followed by at least one line that is not a heading.\<close>

fun every_heading_has_body :: "string list \<Rightarrow> bool" where
  "every_heading_has_body [] = True"
| "every_heading_has_body [l] = (\<not> is_heading l)"
| "every_heading_has_body (l # l' # ls) =
     ((\<not> is_heading l \<or> \<not> is_heading l') \<and> every_heading_has_body (l' # ls))"

text \<open>
  The same outline by recursion on the lines, used to reason about the loop: a heading
  line opens a section whose body is the run of lines up to the next heading.
\<close>

function outline :: "string list \<Rightarrow> PlanSection list" where
  "outline [] = []"
| "outline (l # ls) =
     (case headingMatch l of
        None \<Rightarrow> outline ls
      | Some (hashes, t) \<Rightarrow>
          \<lparr>level = length hashes, title = t,
           section_content = js_join CHR 0x0A (takeWhile (\<lambda>l. \<not> is_heading l) ls),
           section_id = slug t\<rparr>
          # outline (dropWhile (\<lambda>l. \<not> is_heading l) ls))"
  by pat_completeness auto
termination
  by (relation "measure length") (auto simp: length_dropWhile_le less_Suc_eq_le)

section \<open>Properties of the update hub\<close>

lemma most_recent_snoc:
  "length xs \<le> n \<Longrightarrow> 0 < n \<Longrightarrow>
   (if length (xs @ [x]) > n then tl (xs @ [x]) else xs @ [x]) = most_recent n (xs @ [x])"
  by (cases xs) (auto simp: most_recent_def Suc_diff_le)

lemma most_recent_append:
  "most_recent n (most_recent n xs @ ys) = most_recent n (xs @ ys)"
proof (cases "length xs \<le> n")
  case True
  then show ?thesis by (simp add: most_recent_def)
next
  case False
  then have "length xs + length ys - n = length ys + (length xs - n)" by simp
  with False show ?thesis by (simp add: most_recent_def)
qed

lemma length_most_recent: "length (most_recent n xs) \<le> n"
  by (simp add: most_recent_def)

lemma versions_of_broadcast [simp]: "versions_of (broadcastUpdate h m) f = versions_of h f"
  by (simp add: versions_of_def broadcastUpdate_def)

lemma versions_of_onPlanUpdate:
  assumes "length (versions_of h f) \<le> 10"
  shows "versions_of (onPlanUpdate h u) f =
           most_recent 10 (versions_of h f @ arrivals f [PlanEvent u])"
proof (cases "type u \<noteq> Deleted \<and> filename (planFile u) = f")
  case False
  then have "versions_of (onPlanUpdate h u) f = versions_of h f"
    by (auto simp: onPlanUpdate_def Let_def versions_of_def broadcastUpdate_def)
  moreover have "arrivals f [PlanEvent u] = []"
    using False by (auto simp: arrivals_def)
  moreover have "most_recent 10 (versions_of h f) = versions_of h f"
    using assms by (simp add: most_recent_def)
  ultimately show ?thesis by simp
next
  case True
  let ?v = "\<lparr>v_content = content (planFile u), v_timestamp = timestamp u\<rparr>"
  have a: "arrivals f [PlanEvent u] = [?v]"
    using True by (simp add: arrivals_def)
  have "versions_of (onPlanUpdate h u) f =
          (if length (versions_of h f @ [?v]) > 10
           then tl (versions_of h f @ [?v]) else versions_of h f @ [?v])"
    using True
    by (auto simp: onPlanUpdate_def Let_def versions_of_def broadcastUpdate_def
        split: option.splits)
  also have "\<dots> = most_recent 10 (versions_of h f @ [?v])"
    using assms by (intro most_recent_snoc) simp_all
  finally show ?thesis by (simp add: a)
qed

lemma versions_of_hub_step:
  assumes "length (versions_of h f) \<le> 10"
  shows "versions_of (hub_step h e) f = most_recent 10 (versions_of h f @ arrivals f [e])"
proof (cases e)
  case (PlanEvent u)
  then show ?thesis using versions_of_onPlanUpdate [OF assms] by simp
next
  case (TodoEvent s)
  then show ?thesis using assms
    by (simp add: onTodoUpdate_def arrivals_def most_recent_def)
next
  case (Connect c)
  then show ?thesis using assms
    by (simp add: arrivals_def most_recent_def versions_of_def)
next
  case (Disconnect c)
  then show ?thesis using assms
    by (simp add: arrivals_def most_recent_def versions_of_def)
qed

lemma arrivals_append: "arrivals f (xs @ ys) = arrivals f xs @ arrivals f ys"
  by (simp add: arrivals_def)

lemma versions_of_hub_run:
  "versions_of (hub_run hub_start evs) f = most_recent 10 (arrivals f evs)"
proof (induction evs rule: rev_induct)
  case Nil
  show ?case
    by (simp add: hub_run_def hub_start_def versions_of_def arrivals_def most_recent_def)
next
  case (snoc e evs)
  have len: "length (versions_of (hub_run hub_start evs) f) \<le> 10"
    by (simp add: snoc.IH length_most_recent)
  have "versions_of (hub_run hub_start (evs @ [e])) f =
          versions_of (hub_step (hub_run hub_start evs) e) f"
    by (simp add: hub_run_def)
  also have "\<dots> = most_recent 10 (versions_of (hub_run hub_start evs) f @ arrivals f [e])"
    by (rule versions_of_hub_step [OF len])
  also have "\<dots> = most_recent 10 (arrivals f evs @ arrivals f [e])"
    by (simp add: snoc.IH most_recent_append)
  finally show ?case by (simp add: arrivals_append)
qed

lemma arrivals_modifications:
  "arrivals f (map (\<lambda>i. modification f (c i) (t i)) ns) =
     map (\<lambda>i. \<lparr>v_content = c i, v_timestamp = t i\<rparr>) ns"
  by (induction ns) (simp_all add: arrivals_def modification_def)

text \<open>
  C1. Starting from the empty history of a fresh server, after any sequence of hub
  events the versions kept for a filename are the most recent ten of the
  \<open>{content, timestamp}\<close> pairs of that file's non-deleted updates, in arrival order:
  never more than ten, and the oldest leave first. After fifteen modifications of one
  file the versions are those of modifications 5 to 14 (the last ten), in order.
\<close>

theorem history_bounded_fifo:
  "versions_of (hub_run hub_start evs) f = most_recent 10 (arrivals f evs)
   \<and> length (versions_of (hub_run hub_start evs) f) \<le> 10
   \<and> versions_of (hub_run hub_start (map (\<lambda>i. modification f (c i) (t i)) [0..<15])) f
       = map (\<lambda>i. \<lparr>v_content = c i, v_timestamp = t i\<rparr>) [5..<15]"
proof -
  have "most_recent 10 (map (\<lambda>i. \<lparr>v_content = c i, v_timestamp = t i\<rparr>) [0..<15])
          = map (\<lambda>i. \<lparr>v_content = c i, v_timestamp = t i\<rparr>) [5..<15]"
    by (simp add: most_recent_def drop_map)
  then show ?thesis
    by (simp add: versions_of_hub_run length_most_recent arrivals_modifications)
qed

text \<open>
  C9. A deleted PlanUpdate leaves the whole history map as it was, and so does every
  hub event that is not a PlanUpdate: whenever a step changes the history map, the
  event is a PlanUpdate that is not a deletion.
\<close>

theorem deleted_keeps_history:
  "(type u = Deleted \<longrightarrow> planHistory (onPlanUpdate h u) = planHistory h)
   \<and> (planHistory (hub_step h e) \<noteq> planHistory h \<longrightarrow>
        (\<exists>u'. e = PlanEvent u' \<and> type u' \<noteq> Deleted))"
proof (intro conjI impI)
  assume "type u = Deleted"
  then show "planHistory (onPlanUpdate h u) = planHistory h"
    by (simp add: onPlanUpdate_def broadcastUpdate_def)
next
  assume ch: "planHistory (hub_step h e) \<noteq> planHistory h"
  show "\<exists>u'. e = PlanEvent u' \<and> type u' \<noteq> Deleted"
  proof (cases e)
    case (PlanEvent u')
    with ch have "type u' \<noteq> Deleted"
      by (auto simp: onPlanUpdate_def broadcastUpdate_def)
    with PlanEvent show ?thesis by simp
  next
    case (TodoEvent s)
    with ch show ?thesis by (simp add: onTodoUpdate_def broadcastUpdate_def)
  next
    case (Connect c)
    with ch show ?thesis by (simp split: if_splits)
  next
    case (Disconnect c)
    with ch show ?thesis by simp
  qed
qed

theorem deleted_keeps_history_witness:
  "type \<lparr>type = Deleted,
      planFile = \<lparr>filename = ''a.md'', path = ''plans/a.md'', content = [], lastModified = 7\<rparr>,
      timestamp = 7\<rparr> = Deleted
   \<and> planHistory (onPlanUpdate (hub_run hub_start [modification ''a.md'' ''x'' 1])
        \<lparr>type = Deleted,
         planFile = \<lparr>filename = ''a.md'', path = ''plans/a.md'', content = [], lastModified = 7\<rparr>,
         timestamp = 7\<rparr>)
       = planHistory (hub_run hub_start [modification ''a.md'' ''x'' 1])
   \<and> planHistory (hub_step hub_start (modification ''a.md'' ''x'' 1)) \<noteq> planHistory hub_start
   \<and> (\<exists>u'. modification ''a.md'' ''x'' 1 = PlanEvent u' \<and> type u' \<noteq> Deleted)"
proof -
  let ?d = "\<lparr>type = Deleted,
      planFile = \<lparr>filename = ''a.md'', path = ''plans/a.md'', content = [], lastModified = 7\<rparr>,
      timestamp = 7\<rparr>"
  have d: "type ?d = Deleted" by simp
  have ch: "planHistory (hub_step hub_start (modification ''a.md'' ''x'' 1)) \<noteq> planHistory hub_start"
  proof
    assume "planHistory (hub_step hub_start (modification ''a.md'' ''x'' 1)) = planHistory hub_start"
    then have "planHistory (hub_step hub_start (modification ''a.md'' ''x'' 1)) ''a.md''
                 = planHistory hub_start ''a.md''"
      by simp
    then show False
      by (simp add: modification_def onPlanUpdate_def broadcastUpdate_def hub_start_def)
  qed
  from deleted_keeps_history
    [of ?d "hub_run hub_start [modification ''a.md'' ''x'' 1]" "modification ''a.md'' ''x'' 1"]
    deleted_keeps_history [of ?d hub_start "modification ''a.md'' ''x'' 1"]
  show ?thesis using d ch by blast
qed

section \<open>Properties of the todo watcher\<close>



lemma js_split_nonempty [simp]: "js_split sep s \<noteq> []"
  by (induction s) auto

lemma map_throwing_Inr_iff: "map_throwing f xs = Inr ys \<longleftrightarrow> map f xs = map Inr ys"
proof (induction xs arbitrary: ys)
  case Nil
  show ?case by auto
next
  case (Cons x xs)
  show ?case
  proof (cases "f x")
    case (Inl e)
    then show ?thesis by (cases ys) auto
  next
    case (Inr y)
    show ?thesis
    proof (cases "map_throwing f xs")
      case (Inl e)
      with Inr Cons.IH show ?thesis by (cases ys) auto
    next
      case r: (Inr zs)
      with Inr Cons.IH [of zs] Cons.IH show ?thesis by (cases ys) auto
    qed
  qed
qed

lemma map_throwing_length: "map_throwing f xs = Inr ys \<Longrightarrow> length ys = length xs"
  by (metis length_map map_throwing_Inr_iff)

lemma map_throwing_all_Inr:
  "map_throwing f xs = Inr ys \<Longrightarrow> x \<in> set xs \<Longrightarrow> \<exists>y. f x = Inr y \<and> y \<in> set ys"
  unfolding map_throwing_Inr_iff
  by (induction xs arbitrary: ys) auto

lemma map_throwing_from:
  "map_throwing f xs = Inr ys \<Longrightarrow> y \<in> set ys \<Longrightarrow> \<exists>x \<in> set xs. f x = Inr y"
  unfolding map_throwing_Inr_iff
  by (induction xs arbitrary: ys) auto

lemma fileStats_names: "fileStats d fs = Inr stats \<Longrightarrow> map fst stats = fs"
  unfolding fileStats_def map_throwing_Inr_iff
  by (induction fs arbitrary: stats) (auto split: option.splits)

lemma loadState_try_error: "fst (loadState_try d now cur) = Inl e \<Longrightarrow> snd (loadState_try d now cur) = cur"
  by (auto simp: loadState_try_def Let_def split: option.splits sum.splits file_content.splits if_splits)


lemma newest_first_hd_in: "stats \<noteq> [] \<Longrightarrow> hd (newest_first stats) \<in> set stats"
proof -
  assume "stats \<noteq> []"
  then have "newest_first stats \<noteq> []"
    by (metis newest_first_def length_sort length_0_conv)
  then have "hd (newest_first stats) \<in> set (newest_first stats)" by simp
  then show ?thesis by (simp add: newest_first_def)
qed

lemma selected_SomeD:
  assumes "selected d = Some f"
  shows "\<exists>files stats. readdir d = Some files
           \<and> fileStats d (filter (\<lambda>f. endsWith f ''.json'') files) = Inr stats
           \<and> stats \<noteq> [] \<and> filter (\<lambda>f. endsWith f ''.json'') files \<noteq> []
           \<and> f = fst (hd (newest_first stats))"
proof -
  from assms obtain files where r: "readdir d = Some files"
    by (auto simp: selected_def split: option.splits)
  with assms obtain stats where
    s: "fileStats d (filter (\<lambda>f. endsWith f ''.json'') files) = Inr stats"
    by (auto simp: selected_def split: sum.splits)
  with r assms have ne: "stats \<noteq> []" and f: "f = fst (hd (newest_first stats))"
    by (auto simp: selected_def split: list.splits)
  from fileStats_names [OF s] ne have "filter (\<lambda>f. endsWith f ''.json'') files \<noteq> []"
    by auto
  with r s ne f show ?thesis by blast
qed

lemma loadState_selected:
  assumes "selected d = Some f"
  shows "loadState_try d now cur =
           (case readJSON d f of
              Unreadable \<Rightarrow> (Inl IOError, cur)
            | Malformed \<Rightarrow> (Inl SyntaxError, cur)
            | Parsed claudeTodos \<Rightarrow>
                (case mapTodos (the (stat d f)) claudeTodos of
                   Inl e \<Rightarrow> (Inl e, cur)
                 | Inr ts \<Rightarrow>
                     (Inr (), Some \<lparr>sessionId = hd (js_split CHR ''-'' f), tasks = ts,
                                    lastUpdated = the (stat d f)\<rparr>)))"
proof -
  from selected_SomeD [OF assms] obtain files stats where
    r: "readdir d = Some files" and
    s: "fileStats d (filter (\<lambda>f. endsWith f ''.json'') files) = Inr stats" and
    ne: "stats \<noteq> []" "filter (\<lambda>f. endsWith f ''.json'') files \<noteq> []" and
    f: "f = fst (hd (newest_first stats))"
    by blast
  have "hd (newest_first stats) \<in> set stats" using ne by (simp add: newest_first_hd_in)
  then obtain g where g: "g \<in> set (filter (\<lambda>f. endsWith f ''.json'') files)"
      "(case stat d g of None \<Rightarrow> Inl IOError | Some m \<Rightarrow> Inr (g, m)) = Inr (hd (newest_first stats))"
    using map_throwing_from [OF s [unfolded fileStats_def]] by blast
  then have "stat d f = Some (snd (hd (newest_first stats)))"
    using f by (auto split: option.splits) (metis fst_conv snd_conv)
  then have m: "snd (hd (newest_first stats)) = the (stat d f)" by simp
  have f': "fst (hd (newest_first stats)) = f" using f by simp
  show ?thesis
    using r s ne(2)
    by (simp add: loadState_try_def Let_def f' m split: file_content.splits sum.splits)
qed

text \<open>
  C3. When the selected session file cannot be read or is not JSON, \<open>loadState\<close>
  leaves the live state exactly as it was; so does every other way the reload can
  throw (listing, stat, a value that is not an array of records with string content).
  Whenever a reload does change the live state, the new state is whole: the
  \<open>no-session\<close> state of a directory without JSON files, or one task for every
  record of the selected file.
\<close>

theorem reload_failure_keeps_state:
  "(selected d = Some f \<and> (readJSON d f = Unreadable \<or> readJSON d f = Malformed)
      \<longrightarrow> loadState d now cur = cur)
   \<and> (fst (loadState_try d now cur) = Inl e \<longrightarrow> loadState d now cur = cur)
   \<and> (loadState d now cur \<noteq> cur \<longrightarrow>
        (\<exists>st. loadState d now cur = Some st \<and>
           (selected d = None \<and> st = \<lparr>sessionId = ''no-session'', tasks = [], lastUpdated = now\<rparr>
            \<or> (\<exists>g todos. selected d = Some g \<and> readJSON d g = Parsed (JArray todos)
                  \<and> length (tasks st) = length todos))))"
proof (intro conjI impI)
  assume "selected d = Some f \<and> (readJSON d f = Unreadable \<or> readJSON d f = Malformed)"
  then show "loadState d now cur = cur"
    by (auto simp: loadState_def loadState_selected)
next
  assume "fst (loadState_try d now cur) = Inl e"
  then show "loadState d now cur = cur"
    by (simp add: loadState_def loadState_try_error)
next
  assume ch: "loadState d now cur \<noteq> cur"
  show "\<exists>st. loadState d now cur = Some st \<and>
           (selected d = None \<and> st = \<lparr>sessionId = ''no-session'', tasks = [], lastUpdated = now\<rparr>
            \<or> (\<exists>g todos. selected d = Some g \<and> readJSON d g = Parsed (JArray todos)
                  \<and> length (tasks st) = length todos))"
  proof (cases "selected d")
    case (Some g)
    from ch obtain c where c: "readJSON d g = Parsed c"
      by (cases "readJSON d g") (simp_all add: loadState_def loadState_selected [OF Some])
    with ch obtain ts where ts: "mapTodos (the (stat d g)) c = Inr ts"
      by (cases "mapTodos (the (stat d g)) c")
         (simp_all add: loadState_def loadState_selected [OF Some])
    then obtain todos where t: "c = JArray todos"
      by (cases c) (simp_all add: mapTodos_def)
    with ts have "length ts = length todos"
      by (simp add: mapTodos_def map_throwing_length)
    with c ts t Some show ?thesis
      by (simp add: loadState_def loadState_selected [OF Some])
  next
    case None
    from ch obtain files where r: "readdir d = Some files"
      by (cases "readdir d") (simp_all add: loadState_def loadState_try_def)
    show ?thesis
    proof (cases "filter (\<lambda>f. endsWith f ''.json'') files = []")
      case True
      with r None show ?thesis by (simp add: loadState_def loadState_try_def)
    next
      case False
      with ch r obtain stats where
        s: "fileStats d (filter (\<lambda>f. endsWith f ''.json'') files) = Inr stats"
        by (cases "fileStats d (filter (\<lambda>f. endsWith f ''.json'') files)")
           (simp_all add: loadState_def loadState_try_def)
      from fileStats_names [OF s] False have "stats \<noteq> []" by auto
      with r s None show ?thesis
        by (auto simp: selected_def split: list.splits)
    qed
  qed
qed


lemma session_of_InrD:
  assumes "session_of d f = Inr s"
  shows "s_filename s = f \<and> stat d f = Some (s_lastUpdated s)
         \<and> (\<exists>v. readJSON d f = Parsed v
               \<and> taskCount s = (case v of JArray xs \<Rightarrow> length xs | _ \<Rightarrow> 0))"
  using assms
  by (auto simp: session_of_def split: option.splits file_content.splits)

lemma listSessions_cases:
  "listSessions d = [] \<or>
   (\<exists>files sessions. readdir d = Some files
      \<and> map_throwing (session_of d) (filter (\<lambda>f. endsWith f ''.json'') files) = Inr sessions
      \<and> listSessions d = take 50 (sort_key (\<lambda>s. - s_lastUpdated s)
                                   (filter (\<lambda>s. taskCount s > 0) sessions)))"
  by (auto simp: listSessions_def listSessions_try_def split: option.splits sum.splits)

lemma sorted_newest_first:
  "sorted_wrt (\<lambda>a b. s_lastUpdated b \<le> s_lastUpdated a)
     (sort_key (\<lambda>s. - s_lastUpdated s) xs)"
proof -
  have "sorted (map (\<lambda>s. - s_lastUpdated s) (sort_key (\<lambda>s. - s_lastUpdated s) xs))"
    by (rule sorted_sort_key)
  then show ?thesis by (simp add: sorted_map)
qed

lemma sorted_wrt_prefix: "sorted_wrt R xs \<Longrightarrow> sorted_wrt R (take n xs)"
  by (metis append_take_drop_id sorted_wrt_append)

lemma listSessions_listed_or_full:
  assumes "listSessions_try d = Inr r" "readdir d = Some files" "f \<in> set files"
    "endsWith f ''.json''" "readJSON d f = Parsed (JArray todos)" "todos \<noteq> []"
    "stat d f = Some m"
  shows "\<lparr>s_filename = f, s_lastUpdated = m, taskCount = length todos\<rparr> \<in> set (listSessions d)
         \<or> (length (listSessions d) = 50
             \<and> (\<forall>s \<in> set (listSessions d). m \<le> s_lastUpdated s))"
proof -
  let ?L = "\<lambda>sessions. sort_key (\<lambda>s. - s_lastUpdated s) (filter (\<lambda>s. taskCount s > 0) sessions)"
  from assms(1,2) obtain sessions where
    ms: "map_throwing (session_of d) (filter (\<lambda>f. endsWith f ''.json'') files) = Inr sessions" and
    l: "listSessions d = take 50 (?L sessions)"
    by (auto simp: listSessions_def listSessions_try_def split: sum.splits)
  let ?e = "\<lparr>s_filename = f, s_lastUpdated = m, taskCount = length todos\<rparr>"
  have "session_of d f = Inr ?e" using assms by (simp add: session_of_def)
  moreover have "f \<in> set (filter (\<lambda>f. endsWith f ''.json'') files)" using assms by simp
  ultimately have "?e \<in> set sessions"
    using map_throwing_all_Inr [OF ms] by fastforce
  then have inL: "?e \<in> set (?L sessions)" using assms(6) by simp
  show ?thesis
  proof (cases "?e \<in> set (take 50 (?L sessions))")
    case True
    then show ?thesis by (simp add: l)
  next
    case False
    with inL have dr: "?e \<in> set (drop 50 (?L sessions))"
      by (metis Un_iff append_take_drop_id set_append)
    then have "drop 50 (?L sessions) \<noteq> []" by auto
    then have "50 < length (?L sessions)" by simp
    then have len: "length (listSessions d) = 50" by (simp add: l)
    have sorted: "sorted_wrt (\<lambda>a b. s_lastUpdated b \<le> s_lastUpdated a)
                   (take 50 (?L sessions) @ drop 50 (?L sessions))"
      by (simp add: sorted_newest_first)
    have "\<forall>s \<in> set (listSessions d). m \<le> s_lastUpdated s"
    proof
      fix s assume "s \<in> set (listSessions d)"
      then have "s_lastUpdated ?e \<le> s_lastUpdated s"
        using dr sorted unfolding l sorted_wrt_append by blast
      then show "m \<le> s_lastUpdated s" by simp
    qed
    with len show ?thesis by simp
  qed
qed

text \<open>
  C8. Every session \<open>listSessions\<close> returns is a JSON file of the directory whose
  parsed value is a non-empty array, listed with its modification time and its number
  of tasks; the result is sorted by modification time, newest first, and has at most
  50 entries. When the listing succeeds, a session with tasks is left out only when
  the result is full: then the result has exactly 50 entries and the session is no
  newer than any of them; and when the result has fewer than 50 entries, every
  session with tasks is in it.
\<close>

theorem listSessions_nonempty_sorted_capped:
  "(\<forall>s \<in> set (listSessions d).
       endsWith (s_filename s) ''.json''
       \<and> stat d (s_filename s) = Some (s_lastUpdated s)
       \<and> (\<exists>todos. readJSON d (s_filename s) = Parsed (JArray todos)
             \<and> todos \<noteq> [] \<and> taskCount s = length todos))
   \<and> sorted_wrt (\<lambda>a b. s_lastUpdated b \<le> s_lastUpdated a) (listSessions d)
   \<and> length (listSessions d) \<le> 50
   \<and> (listSessions_try d = Inr r \<and> readdir d = Some files \<and> f \<in> set files
        \<and> endsWith f ''.json'' \<and> readJSON d f = Parsed (JArray todos) \<and> todos \<noteq> []
        \<and> stat d f = Some m \<and> f \<notin> s_filename ` set (listSessions d)
      \<longrightarrow> length (listSessions d) = 50
          \<and> (\<forall>s \<in> set (listSessions d). m \<le> s_lastUpdated s))
   \<and> (listSessions_try d = Inr r \<and> readdir d = Some files \<and> f \<in> set files
        \<and> endsWith f ''.json'' \<and> readJSON d f = Parsed (JArray todos) \<and> todos \<noteq> []
        \<and> stat d f = Some m \<and> length (listSessions d) < 50
      \<longrightarrow> \<lparr>s_filename = f, s_lastUpdated = m, taskCount = length todos\<rparr>
            \<in> set (listSessions d))"
proof -
  have 1: "endsWith (s_filename s) ''.json''
       \<and> stat d (s_filename s) = Some (s_lastUpdated s)
       \<and> (\<exists>todos. readJSON d (s_filename s) = Parsed (JArray todos)
             \<and> todos \<noteq> [] \<and> taskCount s = length todos)"
    if s: "s \<in> set (listSessions d)" for s
  proof -
    from s listSessions_cases [of d] obtain files' sessions where
      r: "readdir d = Some files'" and
      m: "map_throwing (session_of d) (filter (\<lambda>f. endsWith f ''.json'') files') = Inr sessions" and
      l: "listSessions d = take 50 (sort_key (\<lambda>s. - s_lastUpdated s)
                                     (filter (\<lambda>s. taskCount s > 0) sessions))"
      by auto
    from s l have "s \<in> set (sort_key (\<lambda>s. - s_lastUpdated s) (filter (\<lambda>s. taskCount s > 0) sessions))"
      by (auto dest: in_set_takeD)
    then have mem: "s \<in> set sessions" and pos: "taskCount s > 0" by auto
    from map_throwing_from [OF m mem] obtain g where
      g: "g \<in> set (filter (\<lambda>f. endsWith f ''.json'') files')" "session_of d g = Inr s"
      by blast
    from session_of_InrD [OF g(2)] obtain v where
      v: "s_filename s = g" "stat d g = Some (s_lastUpdated s)" "readJSON d g = Parsed v"
         "taskCount s = (case v of JArray xs \<Rightarrow> length xs | _ \<Rightarrow> 0)"
      by blast
    from v(4) pos obtain xs where xs: "v = JArray xs" "xs \<noteq> []" "taskCount s = length xs"
      by (cases v) auto
    from g(1) v xs show ?thesis by simp
  qed
  have 2: "sorted_wrt (\<lambda>a b. s_lastUpdated b \<le> s_lastUpdated a) (listSessions d)"
  proof (cases "listSessions d = []")
    case True
    then show ?thesis by simp
  next
    case False
    with listSessions_cases [of d] obtain sessions where
      "listSessions d = take 50 (sort_key (\<lambda>s. - s_lastUpdated s)
                                   (filter (\<lambda>s. taskCount s > 0) sessions))"
      by auto
    then show ?thesis
      by (simp add: sorted_wrt_prefix [OF sorted_newest_first])
  qed
  have 3: "length (listSessions d) \<le> 50"
    using listSessions_cases [of d] by auto
  have 4: "length (listSessions d) = 50
          \<and> (\<forall>s \<in> set (listSessions d). m \<le> s_lastUpdated s)"
    if a: "listSessions_try d = Inr r \<and> readdir d = Some files \<and> f \<in> set files
        \<and> endsWith f ''.json'' \<and> readJSON d f = Parsed (JArray todos) \<and> todos \<noteq> []
        \<and> stat d f = Some m \<and> f \<notin> s_filename ` set (listSessions d)"
  proof -
    let ?e = "\<lparr>s_filename = f, s_lastUpdated = m, taskCount = length todos\<rparr>"
    have "?e \<notin> set (listSessions d)"
    proof
      assume "?e \<in> set (listSessions d)"
      then have "s_filename ?e \<in> s_filename ` set (listSessions d)" by (rule imageI)
      with a show False by simp
    qed
    moreover from a have "?e \<in> set (listSessions d)
         \<or> (length (listSessions d) = 50
             \<and> (\<forall>s \<in> set (listSessions d). m \<le> s_lastUpdated s))"
      by (intro listSessions_listed_or_full [of d r files f todos m]) simp_all
    ultimately show ?thesis by blast
  qed
  have 5: "\<lparr>s_filename = f, s_lastUpdated = m, taskCount = length todos\<rparr>
            \<in> set (listSessions d)"
    if a: "listSessions_try d = Inr r \<and> readdir d = Some files \<and> f \<in> set files
        \<and> endsWith f ''.json'' \<and> readJSON d f = Parsed (JArray todos) \<and> todos \<noteq> []
        \<and> stat d f = Some m \<and> length (listSessions d) < 50"
  proof -
    from a have "\<lparr>s_filename = f, s_lastUpdated = m, taskCount = length todos\<rparr>
           \<in> set (listSessions d)
         \<or> (length (listSessions d) = 50
             \<and> (\<forall>s \<in> set (listSessions d). m \<le> s_lastUpdated s))"
      by (intro listSessions_listed_or_full [of d r files f todos m]) simp_all
    with a show ?thesis by auto
  qed
  from 1 2 3 4 5 show ?thesis by blast
qed

text \<open>
  C10. One JSON file of the directory that cannot be read or parsed makes
  \<open>listSessions\<close> return the empty list, whatever the other files hold.
\<close>

theorem one_bad_file_hides_all:
  "readdir d = Some files \<and> f \<in> set files \<and> endsWith f ''.json''
     \<and> (readJSON d f = Unreadable \<or> readJSON d f = Malformed)
   \<longrightarrow> listSessions d = []"
proof
  assume a: "readdir d = Some files \<and> f \<in> set files \<and> endsWith f ''.json''
     \<and> (readJSON d f = Unreadable \<or> readJSON d f = Malformed)"
  then have bad: "\<exists>e. session_of d f = Inl e"
    by (auto simp: session_of_def split: option.splits)
  have "\<exists>e. map_throwing (session_of d) (filter (\<lambda>f. endsWith f ''.json'') files) = Inl e"
  proof (cases "map_throwing (session_of d) (filter (\<lambda>f. endsWith f ''.json'') files)")
    case (Inl e)
    then show ?thesis by simp
  next
    case (Inr sessions)
    from map_throwing_all_Inr [OF Inr, of f] a bad show ?thesis by auto
  qed
  with a show "listSessions d = []"
    by (auto simp: listSessions_def listSessions_try_def)
qed

lemma mapTodo_status: "mapTodo m todo = Inr t \<Longrightarrow> t_status t = permissive_status todo"
  by (auto simp: mapTodo_def permissive_status_def split: if_splits option.splits json.splits)

lemma mapTodos_status:
  assumes "mapTodos m v = Inr ts"
  shows "\<exists>todos. v = JArray todos \<and> map t_status ts = map permissive_status todos"
proof -
  from assms obtain todos where v: "v = JArray todos"
    by (cases v) (simp_all add: mapTodos_def)
  with assms have "map_throwing (mapTodo m) todos = Inr ts" by (simp add: mapTodos_def)
  then have "map t_status ts = map permissive_status todos"
  proof (induction todos arbitrary: ts)
    case Nil
    then show ?case by simp
  next
    case (Cons a todos)
    then show ?case
      by (auto split: sum.splits simp: mapTodo_status)
  qed
  with v show ?thesis by simp
qed

text \<open>
  C7. Every task that the mapping produces, in \<open>loadSession\<close> and in a live
  reload, has the status of its external record when that is \<open>pending\<close> or
  \<open>in_progress\<close>, and is completed for any other status value (\<open>bogus\<close>, a
  missing status, a status that is not a string).
\<close>

theorem status_passthrough_or_completed:
  "(mapTodo m todo = Inr t \<longrightarrow> t_status t = permissive_status todo)
   \<and> (loadSession d name = Some st \<longrightarrow>
        (\<exists>todos. readJSON d name = Parsed (JArray todos)
           \<and> map t_status (tasks st) = map permissive_status todos))
   \<and> (selected d = Some f \<and> fst (loadState_try d now cur) = Inr () \<longrightarrow>
        (\<exists>st' todos. loadState d now cur = Some st' \<and> readJSON d f = Parsed (JArray todos)
           \<and> map t_status (tasks st') = map permissive_status todos))
   \<and> map_sum id t_status
        (mapTodo m (JObject [(''content'', JString c), (''status'', JString ''pending'')]))
       = Inr Pending
   \<and> map_sum id t_status
        (mapTodo m (JObject [(''content'', JString c), (''status'', JString ''in_progress'')]))
       = Inr InProgress
   \<and> map_sum id t_status
        (mapTodo m (JObject [(''content'', JString c), (''status'', JString ''bogus'')]))
       = Inr Completed"
proof (intro conjI impI)
  assume "mapTodo m todo = Inr t"
  then show "t_status t = permissive_status todo" by (rule mapTodo_status)
next
  assume a: "loadSession d name = Some st"
  then obtain v mt ts where
    "readJSON d name = Parsed v" "stat d name = Some mt" "mapTodos mt v = Inr ts" "tasks st = ts"
    by (auto simp: loadSession_def split: file_content.splits option.splits sum.splits)
  with mapTodos_status [of mt v ts]
  show "\<exists>todos. readJSON d name = Parsed (JArray todos)
           \<and> map t_status (tasks st) = map permissive_status todos"
    by auto
next
  assume a: "selected d = Some f \<and> fst (loadState_try d now cur) = Inr ()"
  then have sel: "selected d = Some f" by simp
  from a obtain v where v: "readJSON d f = Parsed v"
    by (cases "readJSON d f") (simp_all add: loadState_selected [OF sel])
  with a obtain ts where ts: "mapTodos (the (stat d f)) v = Inr ts"
    by (cases "mapTodos (the (stat d f)) v") (simp_all add: loadState_selected [OF sel])
  from mapTodos_status [OF ts] v ts
  show "\<exists>st' todos. loadState d now cur = Some st' \<and> readJSON d f = Parsed (JArray todos)
           \<and> map t_status (tasks st') = map permissive_status todos"
    by (auto simp: loadState_def loadState_selected [OF sel])
qed (simp_all add: mapTodo_def)


lemma generateActiveForm_examples:
  "generateActiveForm ''Write tests'' = ''Writing tests''"
  "generateActiveForm ''Run build'' = ''Running build''"
  by (simp_all add: generateActiveForm_def activeWord_def endsWith_def matches_cvc_def vowel_def)

lemma mapTodos_sample: "mapTodos 20 sample_todos = Inr (tasks sample_state)"
  by (simp add: mapTodos_def sample_todos_def mapTodo_def sample_state_def
      generateActiveForm_examples)

lemma selected_sample: "selected sample_dir = Some ''a1-x.json''"
  by (simp add: selected_def sample_dir_def endsWith_def fileStats_def newest_first_def)

lemma selected_broken: "selected broken_dir = Some ''b2-y.json''"
  by (simp add: selected_def broken_dir_def endsWith_def fileStats_def newest_first_def)

lemma loadState_sample: "loadState_try sample_dir 99 None = (Inr (), Some sample_state)"
  unfolding loadState_selected [OF selected_sample]
  by (simp add: sample_dir_def mapTodos_sample sample_state_def)

lemma loadSession_sample: "loadSession sample_dir ''a1-x.json'' = Some sample_state"
  by (simp add: loadSession_def sample_dir_def mapTodos_sample sample_state_def)

lemma listSessions_sample:
  "listSessions sample_dir = [\<lparr>s_filename = ''a1-x.json'', s_lastUpdated = 20, taskCount = 2\<rparr>]"
  by (simp add: listSessions_def listSessions_try_def sample_dir_def endsWith_def
      session_of_def sample_todos_def)

theorem reload_failure_keeps_state_witness:
  "selected broken_dir = Some ''b2-y.json''
   \<and> readJSON broken_dir ''b2-y.json'' = Malformed
   \<and> fst (loadState_try broken_dir 99 (Some sample_state)) = Inl SyntaxError
   \<and> loadState broken_dir 99 (Some sample_state) = Some sample_state
   \<and> loadState sample_dir 99 None \<noteq> None
   \<and> (\<exists>st. loadState sample_dir 99 None = Some st \<and>
         (selected sample_dir = None
            \<and> st = \<lparr>sessionId = ''no-session'', tasks = [], lastUpdated = 99\<rparr>
          \<or> (\<exists>g todos. selected sample_dir = Some g \<and> readJSON sample_dir g = Parsed (JArray todos)
                \<and> length (tasks st) = length todos)))"
proof -
  have 1: "selected broken_dir = Some ''b2-y.json''" by (rule selected_broken)
  have 2: "readJSON broken_dir ''b2-y.json'' = Malformed" by (simp add: broken_dir_def)
  have 3: "fst (loadState_try broken_dir 99 (Some sample_state)) = Inl SyntaxError"
    unfolding loadState_selected [OF selected_broken] by (simp add: 2)
  have 4: "loadState sample_dir 99 None \<noteq> None"
    by (simp add: loadState_def loadState_sample)
  from reload_failure_keeps_state [of broken_dir "''b2-y.json''" 99 "Some sample_state" SyntaxError]
    reload_failure_keeps_state [of sample_dir "''a1-x.json''" 99 None SyntaxError]
  show ?thesis using 1 2 3 4 by blast
qed

theorem one_bad_file_hides_all_witness:
  "readdir broken_dir = Some [''a1-x.json'', ''b2-y.json'']
   \<and> ''b2-y.json'' \<in> set [''a1-x.json'', ''b2-y.json'']
   \<and> endsWith ''b2-y.json'' ''.json''
   \<and> readJSON broken_dir ''b2-y.json'' = Malformed
   \<and> readJSON broken_dir ''a1-x.json'' = Parsed sample_todos
   \<and> listSessions broken_dir = []"
proof -
  have 1: "readdir broken_dir = Some [''a1-x.json'', ''b2-y.json'']"
    and 2: "readJSON broken_dir ''b2-y.json'' = Malformed"
    and 3: "readJSON broken_dir ''a1-x.json'' = Parsed sample_todos"
    by (simp_all add: broken_dir_def)
  have 4: "endsWith ''b2-y.json'' ''.json''" by (simp add: endsWith_def)
  from one_bad_file_hides_all [of broken_dir "[''a1-x.json'', ''b2-y.json'']" "''b2-y.json''"]
  show ?thesis using 1 2 3 4 by simp
qed

theorem status_passthrough_or_completed_witness:
  "mapTodo 20 (JObject [(''content'', JString ''Run build''), (''status'', JString ''bogus'')])
     = Inr \<lparr>t_content = ''Run build'', activeForm = ''Running build'',
            t_status = Completed, t_timestamp = 20\<rparr>
   \<and> permissive_status (JObject [(''content'', JString ''Run build''), (''status'', JString ''bogus'')])
       = Completed
   \<and> loadSession sample_dir ''a1-x.json'' = Some sample_state
   \<and> selected sample_dir = Some ''a1-x.json''
   \<and> fst (loadState_try sample_dir 99 None) = Inr ()
   \<and> loadState sample_dir 99 None = Some sample_state
   \<and> map t_status (tasks sample_state) = [Pending, Completed]"
proof -
  let ?todo = "JObject [(''content'', JString ''Run build''), (''status'', JString ''bogus'')]"
  let ?task = "\<lparr>t_content = ''Run build'', activeForm = ''Running build'',
            t_status = Completed, t_timestamp = 20\<rparr>"
  have 1: "mapTodo 20 ?todo = Inr ?task"
    by (simp add: mapTodo_def generateActiveForm_examples)
  have 2: "fst (loadState_try sample_dir 99 None) = Inr ()" by (simp add: loadState_sample)
  have 3: "loadState sample_dir 99 None = Some sample_state"
    by (simp add: loadState_def loadState_sample)
  have 4: "map t_status (tasks sample_state) = [Pending, Completed]"
    by (simp add: sample_state_def)
  from status_passthrough_or_completed
    [of 20 ?todo ?task sample_dir "''a1-x.json''" sample_state "''a1-x.json''" 99 None]
  have "t_status ?task = permissive_status ?todo" using 1 by blast
  then show ?thesis
    using 1 2 3 4 loadSession_sample selected_sample by simp
qed


lemma listSessions_try_crowded:
  "listSessions_try crowded_dir =
     Inr (map (\<lambda>c. \<lparr>s_filename = c # ''.json'', s_lastUpdated = real (of_char c), taskCount = 1\<rparr>)
            ''zyxwvutsrqponmlkjihgfedcbaZYXWVUTSRQPONMLKJIHGFEDC'')"
  by (simp add: listSessions_try_def crowded_dir_def endsWith_def session_of_def)

theorem listSessions_nonempty_sorted_capped_witness:
  "listSessions sample_dir
     = [\<lparr>s_filename = ''a1-x.json'', s_lastUpdated = 20, taskCount = 2\<rparr>]
   \<and> readJSON sample_dir ''empty-0.json'' = Parsed (JArray [])
   \<and> endsWith ''a1-x.json'' ''.json''
   \<and> stat sample_dir ''a1-x.json'' = Some 20
   \<and> (\<exists>todos. readJSON sample_dir ''a1-x.json'' = Parsed (JArray todos)
         \<and> todos \<noteq> [] \<and> 2 = length todos)
   \<and> listSessions_try sample_dir = Inr (listSessions sample_dir)
   \<and> length (listSessions sample_dir) < 50
   \<and> \<lparr>s_filename = ''a1-x.json'', s_lastUpdated = 20, taskCount = 2\<rparr>
       \<in> set (listSessions sample_dir)
   \<and> listSessions_try crowded_dir = Inr (listSessions crowded_dir)
   \<and> ''A.json'' \<in> set (the (readdir crowded_dir))
   \<and> readJSON crowded_dir ''A.json'' = Parsed (JArray [JNull])
   \<and> stat crowded_dir ''A.json'' = Some 65
   \<and> ''A.json'' \<notin> s_filename ` set (listSessions crowded_dir)
   \<and> length (listSessions crowded_dir) = 50
   \<and> list_all (\<lambda>s. 65 \<le> s_lastUpdated s) (listSessions crowded_dir)"
proof -
  let ?e = "\<lparr>s_filename = ''a1-x.json'', s_lastUpdated = 20, taskCount = 2\<rparr>"
  let ?files = "map (\<lambda>c. c # ''.json'') ''zyxwvutsrqponmlkjihgfedcbaZYXWVUTSRQPONMLKJIHGFEDCBA''"
  let ?small = "[''a1-x.json'', ''empty-0.json'', ''notes.txt'']"
  let ?todos = "[JObject [(''content'', JString ''Write tests''), (''status'', JString ''pending'')],
             JObject [(''content'', JString ''Run build''), (''status'', JString ''bogus'')]]"
  have s1: "listSessions_try sample_dir = Inr (listSessions sample_dir)"
    by (simp add: listSessions_def listSessions_try_def sample_dir_def endsWith_def
        session_of_def sample_todos_def)
  have s2: "readdir sample_dir = Some ?small"
    and s3: "readJSON sample_dir ''a1-x.json'' = Parsed (JArray ?todos)"
    and s4: "stat sample_dir ''a1-x.json'' = Some 20"
    by (simp_all add: sample_dir_def sample_todos_def)
  have s5: "endsWith ''a1-x.json'' ''.json''" by (simp add: endsWith_def)
  have s6: "length (listSessions sample_dir) < 50" by (simp add: listSessions_sample)
  from listSessions_nonempty_sorted_capped
    [of sample_dir "listSessions sample_dir" ?small "''a1-x.json''" ?todos 20]
  have "\<lparr>s_filename = ''a1-x.json'', s_lastUpdated = 20, taskCount = length ?todos\<rparr>
          \<in> set (listSessions sample_dir)"
    using s1 s2 s3 s4 s5 s6 by simp
  moreover have "length ?todos = 2" by simp
  ultimately have e: "?e \<in> set (listSessions sample_dir)" by (simp only:)
  from listSessions_nonempty_sorted_capped [of sample_dir]
  have "\<forall>s \<in> set (listSessions sample_dir).
       endsWith (s_filename s) ''.json''
       \<and> stat sample_dir (s_filename s) = Some (s_lastUpdated s)
       \<and> (\<exists>todos. readJSON sample_dir (s_filename s) = Parsed (JArray todos)
             \<and> todos \<noteq> [] \<and> taskCount s = length todos)"
    by blast
  from bspec [OF this e]
  have small: "endsWith ''a1-x.json'' ''.json'' \<and> stat sample_dir ''a1-x.json'' = Some 20
     \<and> (\<exists>todos. readJSON sample_dir ''a1-x.json'' = Parsed (JArray todos)
         \<and> todos \<noteq> [] \<and> 2 = length todos)"
    by simp
  have l: "listSessions crowded_dir =
      map (\<lambda>c. \<lparr>s_filename = c # ''.json'', s_lastUpdated = real (of_char c), taskCount = 1\<rparr>)
        ''zyxwvutsrqponmlkjihgfedcbaZYXWVUTSRQPONMLKJIHGFEDC''"
    by (simp add: listSessions_def listSessions_try_crowded)
  have 1: "listSessions_try crowded_dir = Inr (listSessions crowded_dir)"
    by (simp add: l listSessions_try_crowded)
  have 2: "readdir crowded_dir = Some ?files" by (simp add: crowded_dir_def)
  have 3: "''A.json'' \<in> set ?files" by simp
  have 4: "endsWith ''A.json'' ''.json''" by (simp add: endsWith_def)
  have 5: "readJSON crowded_dir ''A.json'' = Parsed (JArray [JNull])"
    and 6: "stat crowded_dir ''A.json'' = Some 65"
    by (simp_all add: crowded_dir_def)
  have 7: "''A.json'' \<notin> s_filename ` set (listSessions crowded_dir)"
    by (simp add: l)
  from listSessions_nonempty_sorted_capped
    [of crowded_dir "listSessions crowded_dir" ?files "''A.json''" "[JNull]" 65]
  have full: "length (listSessions crowded_dir) = 50
      \<and> (\<forall>s \<in> set (listSessions crowded_dir). 65 \<le> s_lastUpdated s)"
    using 1 2 3 4 5 6 7 by blast
  then have 8: "length (listSessions crowded_dir) = 50" by blast
  from full have 9: "list_all (\<lambda>s. 65 \<le> s_lastUpdated s) (listSessions crowded_dir)"
    by (simp add: list_all_iff)
  have 10: "readJSON sample_dir ''empty-0.json'' = Parsed (JArray [])"
    by (simp add: sample_dir_def)
  show ?thesis
    using small s1 s6 e 1 2 3 5 6 7 8 9 10 by (simp add: listSessions_sample)
qed

section \<open>Properties of generateActiveForm and calculateStats\<close>

lemma js_split_tl: "sep \<in> set s \<Longrightarrow> tl (js_split sep s) \<noteq> []"
  by (induction s) auto

lemma js_join_Cons: "ws \<noteq> [] \<Longrightarrow> js_join sep (w # ws) = w @ sep # js_join sep ws"
  by (cases ws) simp_all

lemma generateActiveForm_rejoined:
  "CHR '' '' \<in> set c \<Longrightarrow> generateActiveForm c = rejoined_activeForm c"
  by (simp add: generateActiveForm_def rejoined_activeForm_def Let_def js_split_tl js_join_Cons)

lemma generateActiveForm_one_word:
  "CHR '' '' \<notin> set c \<Longrightarrow> generateActiveForm c = rejoined_activeForm c @ '' ''"
proof -
  assume "CHR '' '' \<notin> set c"
  then have "js_split CHR '' '' c = [c]" by (induction c) auto
  then show ?thesis by (simp add: generateActiveForm_def rejoined_activeForm_def)
qed

text \<open>
  C6. The code appends a space and the joined remaining words to the inflected first
  word whether or not there are remaining words. For a content of one word, such as
  \<open>Run\<close>, the result ends in a space, where splitting, inflecting and joining again
  gives \<open>Running\<close>. The two lemmas above give the general picture: the code agrees
  with the re-joined form exactly on contents that contain a space.
\<close>

theorem activeForm_one_word_trailing_space:
  "generateActiveForm ''Run'' = ''Running '' \<and> rejoined_activeForm ''Run'' = ''Running''"
  by (simp add: generateActiveForm_def rejoined_activeForm_def activeWord_def endsWith_def
      matches_cvc_def vowel_def)

lemma calculateStats_counts:
  "total' (calculateStats s) = length (tasks s)
   \<and> pending (calculateStats s) = length (filter (\<lambda>t. t_status t = Pending) (tasks s))
   \<and> inProgress (calculateStats s) = length (filter (\<lambda>t. t_status t = InProgress) (tasks s))
   \<and> completed (calculateStats s) = length (filter (\<lambda>t. t_status t = Completed) (tasks s))
   \<and> pending (calculateStats s) + inProgress (calculateStats s) + completed (calculateStats s)
       = total' (calculateStats s)"
proof -
  have "length (filter (\<lambda>t. t_status t = Pending) ts)
        + length (filter (\<lambda>t. t_status t = InProgress) ts)
        + length (filter (\<lambda>t. t_status t = Completed) ts) = length ts" for ts :: "TodoTask list"
  proof (induction ts)
    case Nil
    show ?case by simp
  next
    case (Cons a ts)
    then show ?case by (cases "t_status a") simp_all
  qed
  then show ?thesis by (simp add: calculateStats_def Let_def)
qed

lemma calculateStats_empty:
  "tasks s = [] \<Longrightarrow> completionPercentage (calculateStats s) = 0"
  by (simp add: calculateStats_def)

subsection \<open>The double model and the percentage\<close>

text \<open>
  \<open>binade\<close> is the binary exponent, \<open>double\<close> is within half a unit in the last
  place, and the percentage of the code equals the exactly rounded percentage for
  every session of fewer than \<open>2^32\<close> tasks in which \<open>100 * completed / total\<close> is
  not halfway between two integers; it is never more than 1 away from it.
\<close>

lemma bits_bounds: "0 < n \<Longrightarrow> 2 ^ (bits n - 1) \<le> n \<and> n < 2 ^ bits n"
proof (induction n rule: bits.induct)
  case (1 n)
  show ?case
  proof (cases "n = 1")
    case True
    have "bits 1 = 1" by (simp add: bits.simps)
    with True show ?thesis by simp
  next
    case False
    with 1(2) have h: "0 < n div 2" by simp
    from 1(1) 1(2) h have ih: "2 ^ (bits (n div 2) - 1) \<le> n div 2 \<and> n div 2 < 2 ^ bits (n div 2)"
      by simp
    have b: "bits n = Suc (bits (n div 2))" using 1(2) by (simp add: bits.simps [of n])
    have pos: "0 < bits (n div 2)" using h by (simp add: bits.simps [of "n div 2"])
    then have p: "(2::int) ^ bits (n div 2) = 2 * 2 ^ (bits (n div 2) - 1)"
      by (cases "bits (n div 2)") simp_all
    from ih p have "2 ^ bits (n div 2) \<le> 2 * (n div 2)" by simp
    also have "\<dots> \<le> n" by simp
    finally have lo: "2 ^ (bits n - 1) \<le> n" by (simp add: b)
    from ih have "n div 2 + 1 \<le> 2 ^ bits (n div 2)" by simp
    then have "2 * (n div 2) + 2 \<le> 2 ^ bits n" by (simp add: b)
    moreover have "n < 2 * (n div 2) + 2" by presburger
    ultimately have "n < 2 ^ bits n" by linarith
    with lo show ?thesis by simp
  qed
qed

lemma binade_bounds:
  assumes "x \<noteq> 0"
  shows "2 powi binade x \<le> \<bar>x\<bar> \<and> \<bar>x\<bar> < 2 powi (binade x + 1)"
proof -
  obtain p q where pq: "quotient_of \<bar>x\<bar> = (p, q)" by (cases "quotient_of \<bar>x\<bar>")
  then have q: "0 < q" by (rule quotient_of_denom_pos)
  from pq have x: "\<bar>x\<bar> = of_int p / of_int q" by (rule quotient_of_div)
  from assms have "0 < \<bar>x\<bar>" by simp
  with x q have p: "0 < p" by (simp add: zero_less_divide_iff)
  let ?k = "int (bits p) - int (bits q)"
  from bits_bounds [OF p] have bp: "2 ^ (bits p - 1) \<le> p" "p < 2 ^ bits p" by simp_all
  from bits_bounds [OF q] have bq: "2 ^ (bits q - 1) \<le> q" "q < 2 ^ bits q" by simp_all
  have posp: "0 < bits p" using p by (simp add: bits.simps [of p])
  have posq: "0 < bits q" using q by (simp add: bits.simps [of q])
  have P: "(2::rat) ^ bits p = 2 * 2 ^ (bits p - 1)" using posp by (cases "bits p") simp_all
  have Q: "(2::rat) ^ bits q = 2 * 2 ^ (bits q - 1)" using posq by (cases "bits q") simp_all
  have rp: "(2::rat) ^ (bits p - 1) \<le> of_int p" "(of_int p :: rat) < 2 ^ bits p"
    using bp by (metis of_int_le_iff of_int_numeral of_int_power, metis of_int_less_iff of_int_numeral of_int_power)
  have rq: "(2::rat) ^ (bits q - 1) \<le> of_int q" "(of_int q :: rat) < 2 ^ bits q"
    using bq by (metis of_int_le_iff of_int_numeral of_int_power, metis of_int_less_iff of_int_numeral of_int_power)
  have k: "(2::rat) powi ?k = 2 ^ bits p / 2 ^ bits q" by (simp add: power_int_diff)
  have qpos: "(0::rat) < of_int q" using q by simp
  \<comment> \<open>upper: x < 2 powi (k + 1)\<close>
  have "of_int p * (2::rat) ^ bits q < 2 ^ bits p * (2 * of_int q)"
  proof -
    have "of_int p * (2::rat) ^ bits q < 2 ^ bits p * 2 ^ bits q"
      using rp(2) by simp
    also have "\<dots> = 2 ^ bits p * (2 * 2 ^ (bits q - 1))" by (simp only: Q)
    also have "\<dots> \<le> 2 ^ bits p * (2 * of_int q)" using rq(1) by simp
    finally show ?thesis .
  qed
  then have "of_int p / of_int q < 2 * (2::rat) ^ bits p / 2 ^ bits q"
    using qpos by (simp add: field_simps)
  moreover have "(2::rat) powi (?k + 1) = 2 * 2 ^ bits p / 2 ^ bits q"
    by (simp add: power_int_add k)
  ultimately have up: "\<bar>x\<bar> < 2 powi (?k + 1)"
    by (simp only: x)
  \<comment> \<open>lower: 2 powi (k - 1) <= x\<close>
  have "(2::rat) ^ bits p * of_int q \<le> 2 * of_int p * 2 ^ bits q"
  proof -
    have "(2::rat) ^ bits p * of_int q = 2 * 2 ^ (bits p - 1) * of_int q" by (simp only: P)
    also have "\<dots> \<le> 2 * of_int p * of_int q" using rp(1) qpos by simp
    also have "\<dots> \<le> 2 * of_int p * 2 ^ bits q" using rq(2) p by simp
    finally show ?thesis .
  qed
  then have "(2::rat) ^ bits p / 2 ^ bits q / 2 \<le> of_int p / of_int q"
    using qpos by (simp add: field_simps)
  moreover have "(2::rat) powi (?k - 1) = 2 ^ bits p / 2 ^ bits q / 2"
    by (simp add: power_int_diff k)
  ultimately have lo: "2 powi (?k - 1) \<le> \<bar>x\<bar>"
    by (simp only: x)
  show ?thesis
  proof (cases "2 powi ?k \<le> \<bar>x\<bar>")
    case True
    then have "binade x = ?k" by (simp add: binade_def pq)
    with True up show ?thesis by simp
  next
    case False
    then have "binade x = ?k - 1" by (simp add: binade_def pq)
    with False lo show ?thesis by simp
  qed
qed

lemma ties_to_even_error: "\<bar>of_int (ties_to_even y) - y\<bar> \<le> 1 / 2"
proof -
  have "of_int \<lfloor>y\<rfloor> \<le> y" "y < of_int \<lfloor>y\<rfloor> + 1" by linarith+
  then show ?thesis
    by (auto simp: ties_to_even_def Let_def abs_le_iff)
qed

lemma powi_pos: "(0::rat) < 2 powi e"
  by (simp add: zero_less_power_int)

lemma double_error:
  assumes "x \<noteq> 0"
  shows "\<bar>double x - x\<bar> \<le> 2 powi (binade x - 53)"
proof -
  let ?e = "binade x - 52"
  let ?y = "x / 2 powi ?e"
  have d: "double x = of_int (ties_to_even ?y) * 2 powi ?e"
    using assms by (simp add: double_def Let_def)
  have nz: "(2::rat) powi ?e \<noteq> 0" using powi_pos [of ?e] by simp
  have x: "x = ?y * 2 powi ?e" using nz by simp
  have "double x - x = (of_int (ties_to_even ?y) - ?y) * 2 powi ?e"
    by (subst (2) x, simp only: d left_diff_distrib)
  then have "\<bar>double x - x\<bar> = \<bar>of_int (ties_to_even ?y) - ?y\<bar> * 2 powi ?e"
    using powi_pos [of ?e] by (simp add: abs_mult)
  also have "\<dots> \<le> 1 / 2 * 2 powi ?e"
    using ties_to_even_error [of ?y] powi_pos [of ?e]
    by (intro mult_right_mono) simp_all
  also have "\<dots> = 2 powi (binade x - 53)"
  proof -
    have "(2::rat) powi (binade x - 53 + 1) = 2 powi (binade x - 53) * 2 powi 1"
      by (rule power_int_add) simp
    moreover have "binade x - 53 + 1 = ?e" by simp
    ultimately have "(2::rat) powi ?e = 2 powi (binade x - 53) * 2" by simp
    then show ?thesis by simp
  qed
  finally show ?thesis .
qed

lemma binade_less:
  assumes "x \<noteq> 0" "\<bar>x\<bar> < 2 powi m"
  shows "binade x < m"
proof (rule ccontr)
  assume "\<not> binade x < m"
  then have "m \<le> binade x" by simp
  then have "(2::rat) powi m \<le> 2 powi binade x"
    by (intro power_int_increasing) simp_all
  with binade_bounds [OF assms(1)] assms(2) show False by linarith
qed

lemma double_error_below:
  assumes "\<bar>x\<bar> < 2 powi m"
  shows "\<bar>double x - x\<bar> \<le> 2 powi (m - 54)"
proof (cases "x = 0")
  case True
  then show ?thesis using powi_pos [of "m - 54"] by (simp add: double_def)
next
  case False
  from binade_less [OF False assms] have "binade x - 53 \<le> m - 54" by simp
  then have "(2::rat) powi (binade x - 53) \<le> 2 powi (m - 54)"
    by (intro power_int_increasing) simp_all
  with double_error [OF False] show ?thesis by linarith
qed

lemma percentage_error:
  assumes "c \<le> t" "0 < t"
  shows "\<bar>double (double (of_nat c / of_nat t) * 100) - 100 * of_nat c / of_nat t\<bar>
           < 1 / 2 ^ 45"
proof -
  define x :: rat where "x = of_nat c / of_nat t"
  define q where "q = double x"
  define p where "p = double (q * 100)"
  have x: "0 \<le> x" "x \<le> 1" using assms by (simp_all add: x_def)
  have "\<bar>x\<bar> < 2 powi 1" using x by simp
  from double_error_below [OF this] have "\<bar>q - x\<bar> \<le> 2 powi (1 - 54)"
    by (simp only: q_def)
  moreover have "(2::rat) powi (1 - 54) = 1 / 2 ^ 53"
    by (simp add: power_int_def field_simps)
  ultimately have e1: "\<bar>q - x\<bar> \<le> 1 / 2 ^ 53" by simp
  have "\<bar>q\<bar> \<le> \<bar>q - x\<bar> + \<bar>x\<bar>" using abs_triangle_ineq [of "q - x" x] by simp
  with e1 x have qb: "\<bar>q\<bar> \<le> 1 + 1 / 2 ^ 53" by linarith
  have "\<bar>q * 100\<bar> = \<bar>q\<bar> * 100" by (simp add: abs_mult)
  also have "\<dots> \<le> (1 + 1 / 2 ^ 53) * 100" using qb by (intro mult_right_mono) simp_all
  also have "\<dots> < 2 powi 7" by (simp add: power_int_def)
  finally have "\<bar>q * 100\<bar> < 2 powi 7" .
  from double_error_below [OF this] have "\<bar>p - q * 100\<bar> \<le> 2 powi (7 - 54)"
    by (simp only: p_def)
  moreover have "(2::rat) powi (7 - 54) = 1 / 2 ^ 47"
    by (simp add: power_int_def field_simps)
  ultimately have e2: "\<bar>p - q * 100\<bar> \<le> 1 / 2 ^ 47" by simp
  have "p - 100 * x = (p - q * 100) + 100 * (q - x)" by simp
  then have "\<bar>p - 100 * x\<bar> \<le> \<bar>p - q * 100\<bar> + \<bar>100 * (q - x)\<bar>"
    using abs_triangle_ineq [of "p - q * 100" "100 * (q - x)"] by simp
  also have "\<bar>100 * (q - x)\<bar> = 100 * \<bar>q - x\<bar>"
    using abs_mult [of 100 "q - x"] by (simp del: right_diff_distrib_numeral)
  also have "\<bar>p - q * 100\<bar> + 100 * \<bar>q - x\<bar> \<le> 1 / 2 ^ 47 + 100 * (1 / 2 ^ 53)"
    using e1 e2 by (intro add_mono mult_left_mono) simp_all
  also have "\<dots> < 1 / 2 ^ 45" by simp
  finally have "\<bar>p - 100 * x\<bar> < 1 / 2 ^ 45" .
  then show ?thesis by (simp add: p_def q_def x_def)
qed

lemma rounding_off_ties:
  assumes "c \<le> t" "0 < t" "t < 2 ^ 32" "(200 * c + t) mod (2 * t) \<noteq> 0"
  shows "Math_round (double (double (of_nat c / of_nat t) * 100)) = rounded_percentage c t"
proof -
  define p where "p = double (double (of_nat c / of_nat t) * 100)"
  define z :: rat where "z = 100 * of_nat c / of_nat t"
  define N D m r where "N = 200 * c + t" and "D = 2 * t" and "m = N div D" and "r = N mod D"
  define d :: rat where "d = of_nat D"
  have D: "0 < D" using assms by (simp add: D_def)
  have r: "1 \<le> r" "r + 1 \<le> D"
    using assms(4) D by (simp_all add: r_def N_def D_def Suc_leI)
  have dpos: "0 < d" using D by (simp add: d_def)
  have "N = m * D + r" by (simp add: m_def r_def)
  then have N: "(of_nat N :: rat) = of_nat m * d + of_nat r" by (simp add: d_def)
  have "z + 1 / 2 = of_nat N / d"
    using assms(2) by (simp add: z_def N_def D_def d_def field_simps)
  also have "\<dots> = of_nat m + of_nat r / d"
    using dpos by (simp add: N field_simps)
  finally have z: "z + 1 / 2 = of_nat m + of_nat r / d" .
  have "(1::rat) \<le> of_nat r" using r(1) by simp
  then have lo: "1 / d \<le> of_nat r / d"
    using dpos by (intro divide_right_mono) simp_all
  have "(of_nat r :: rat) + 1 \<le> d"
    unfolding d_def using r(2) by (metis of_nat_1 of_nat_add of_nat_le_iff)
  then have "(of_nat r :: rat) / d \<le> (d - 1) / d"
    using dpos by (intro divide_right_mono) simp_all
  also have "(d - 1) / d = 1 - 1 / d" using dpos by (simp add: field_simps)
  finally have hi: "(of_nat r :: rat) / d \<le> 1 - 1 / d" .
  have "D < 2 ^ 45" using assms(3) by (simp add: D_def)
  then have "d < 2 ^ 45"
    unfolding d_def by (metis of_nat_less_iff of_nat_numeral of_nat_power)
  then have "1 / 2 ^ 45 < 1 / d"
    using dpos by (intro divide_strict_left_mono) simp_all
  moreover from percentage_error [OF assms(1,2)] have "\<bar>p - z\<bar> < 1 / 2 ^ 45"
    by (simp only: p_def z_def)
  ultimately have e: "\<bar>p - z\<bar> < 1 / d" by linarith
  have inv: "0 < 1 / d" using dpos by simp
  have mm: "(of_int (int m) :: rat) = of_nat m" by simp
  have "of_int (int m) \<le> p + 1 / 2"
    using e lo z mm unfolding abs_less_iff by linarith
  moreover have "p + 1 / 2 < of_int (int m) + 1"
    using e hi z mm unfolding abs_less_iff by linarith
  ultimately have "\<lfloor>p + 1 / 2\<rfloor> = int m" by (rule floor_unique)
  moreover have "\<lfloor>z + 1 / 2\<rfloor> = int m"
  proof (rule floor_unique)
    show "of_int (int m) \<le> z + 1 / 2" using lo inv z mm by linarith
    show "z + 1 / 2 < of_int (int m) + 1" using hi inv z mm by linarith
  qed
  ultimately show ?thesis
    using assms(2) by (simp add: Math_round_def rounded_percentage_def p_def z_def)
qed

lemma rounding_within_one:
  assumes "c \<le> t" "0 < t"
  shows "rounded_percentage c t - 1 \<le> Math_round (double (double (of_nat c / of_nat t) * 100))
         \<and> Math_round (double (double (of_nat c / of_nat t) * 100)) \<le> rounded_percentage c t + 1"
proof -
  define p where "p = double (double (of_nat c / of_nat t) * 100)"
  define z :: rat where "z = 100 * of_nat c / of_nat t"
  from percentage_error [OF assms] have "\<bar>p - z\<bar> < 1 / 2 ^ 45"
    by (simp only: p_def z_def)
  then have e: "\<bar>(p + 1 / 2) - (z + 1 / 2)\<bar> < 1" by simp
  have "\<lfloor>z + 1 / 2\<rfloor> - 1 \<le> \<lfloor>p + 1 / 2\<rfloor> \<and> \<lfloor>p + 1 / 2\<rfloor> \<le> \<lfloor>z + 1 / 2\<rfloor> + 1"
    using e unfolding abs_less_iff by (intro conjI) linarith+
  then show ?thesis
    using assms(2) by (simp add: Math_round_def rounded_percentage_def p_def z_def)
qed

lemma calculateStats_percentage_off_ties:
  assumes "length (tasks s) < 2 ^ 32"
    and "(200 * completed (calculateStats s) + total' (calculateStats s))
           mod (2 * total' (calculateStats s)) \<noteq> 0"
  shows "completionPercentage (calculateStats s)
           = rounded_percentage (completed (calculateStats s)) (total' (calculateStats s))"
proof (cases "tasks s = []")
  case True
  then show ?thesis by (simp add: calculateStats_def rounded_percentage_def)
next
  case False
  let ?c = "length (filter (\<lambda>t. t_status t = Completed) (tasks s))"
  let ?t = "length (tasks s)"
  have "?c \<le> ?t" by simp
  moreover have "0 < ?t" using False by simp
  moreover have "(200 * ?c + ?t) mod (2 * ?t) \<noteq> 0"
    using assms(2) by (simp add: calculateStats_def Let_def)
  ultimately have "Math_round (double (double (of_nat ?c / of_nat ?t) * 100))
                     = rounded_percentage ?c ?t"
    using assms(1) by (intro rounding_off_ties)
  with False show ?thesis by (simp add: calculateStats_def Let_def)
qed

lemma percentage_one_third: "Math_round (double (double (1 / 3) * 100)) = 33"
  by code_simp

lemma percentage_23_of_40: "Math_round (double (double (23 / 40) * 100)) = 57"
  by code_simp

lemma percentage_one_eighth: "Math_round (double (double (1 / 8) * 100)) = 13"
  by code_simp

lemma percentage_29_of_200: "Math_round (double (double (29 / 200) * 100)) = 14"
  by code_simp

lemma calculateStats_one_of_three:
  "length (tasks s) = 3 \<Longrightarrow> length (filter (\<lambda>t. t_status t = Completed) (tasks s)) = 1
   \<Longrightarrow> completionPercentage (calculateStats s) = 33"
  by (simp add: calculateStats_def percentage_one_third)

text \<open>
  C5. The counts are the numbers of tasks of each status, the percentage of an empty
  session is 0, 1 of 3 gives 33, and off the ties the percentage is the exactly rounded
  one (lemmas above). But the code multiplies the rounded quotient: with 23 of 40
  tasks completed, \<open>23 / 40\<close> is the double just below 0.575, its product with 100
  is the double 57.49999999999999, and \<open>Math.round\<close> returns 57, where
  100 * 23 / 40 = 57.5 rounds to 58.
\<close>

theorem percentage_tie_rounds_down:
  "total' (calculateStats (session_with 23 17)) = 40
   \<and> completed (calculateStats (session_with 23 17)) = 23
   \<and> completionPercentage (calculateStats (session_with 23 17)) = 57
   \<and> rounded_percentage 23 40 = 58"
proof -
  have "rounded_percentage 23 40 = 58" by (simp add: rounded_percentage_def)
  then show ?thesis
    by (simp add: calculateStats_def session_with_def percentage_23_of_40)
qed

section \<open>Properties of the heading outline extractor\<close>

subsection \<open>Maximal runs\<close>

lemma maximal_runs_Nil_iff [simp]: "maximal_runs P xs = [] \<longleftrightarrow> xs = []"
  by (cases xs) (auto split: list.splits)

lemma maximal_runs_hd:
  "maximal_runs P xs = r # rs \<Longrightarrow> r \<noteq> [] \<and> hd r = hd xs"
  by (cases xs) (auto split: list.splits if_splits)

lemma concat_maximal_runs: "concat (maximal_runs P xs) = xs"
  by (induction xs) (auto split: list.splits)

lemma maximal_runs_uniform:
  "r \<in> set (maximal_runs P xs) \<Longrightarrow>
     r \<noteq> [] \<and> ((\<forall>x \<in> set r. P x) \<or> (\<forall>x \<in> set r. \<not> P x))"
proof (induction xs arbitrary: r)
  case Nil
  then show ?case by simp
next
  case (Cons x xs)
  show ?case
  proof (cases "maximal_runs P xs")
    case Nil
    with Cons.prems show ?thesis by auto
  next
    case c: (Cons r' rs)
    have r': "r' \<noteq> [] \<and> ((\<forall>y \<in> set r'. P y) \<or> (\<forall>y \<in> set r'. \<not> P y))"
      by (rule Cons.IH) (simp add: c)
    then have h: "hd r' \<in> set r'" by simp
    have rs: "q \<noteq> [] \<and> ((\<forall>y \<in> set q. P y) \<or> (\<forall>y \<in> set q. \<not> P y))"
      if "q \<in> set rs" for q
      by (rule Cons.IH) (simp add: c that)
    show ?thesis
    proof (cases "P x = P (hd r')")
      case True
      with c Cons.prems have "r = x # r' \<or> r \<in> set rs" by simp
      then show ?thesis
      proof
        assume e: "r = x # r'"
        from r' h True have "(\<forall>y \<in> set (x # r'). P y) \<or> (\<forall>y \<in> set (x # r'). \<not> P y)"
          by (cases "P x") auto
        with e show ?thesis by blast
      next
        assume "r \<in> set rs"
        then show ?thesis by (rule rs)
      qed
    next
      case False
      with c Cons.prems have "r = [x] \<or> r = r' \<or> r \<in> set rs" by simp
      then show ?thesis
      proof (elim disjE)
        assume "r = [x]"
        then show ?thesis by simp
      next
        assume "r = r'"
        with r' show ?thesis by blast
      next
        assume "r \<in> set rs"
        then show ?thesis by (rule rs)
      qed
    qed
  qed
qed

lemma maximal_runs_alternate:
  "successively (\<lambda>r r'. P (hd r) \<noteq> P (hd r')) (maximal_runs P xs)"
proof (induction xs)
  case Nil
  show ?case by simp
next
  case (Cons x xs)
  show ?case
  proof (cases "maximal_runs P xs")
    case Nil
    then show ?thesis by simp
  next
    case c: (Cons r rs)
    show ?thesis
    proof (cases "P x = P (hd r)")
      case True
      have "successively (\<lambda>r r'. P (hd r) \<noteq> P (hd r')) ((x # r) # rs)"
      proof (cases rs)
        case Nil
        then show ?thesis by simp
      next
        case (Cons r2 rs2)
        with Cons.IH c True show ?thesis by simp
      qed
      with c True show ?thesis by simp
    next
      case False
      with Cons.IH c show ?thesis by simp
    qed
  qed
qed



lemma maximal_runs_inside:
  "P x \<Longrightarrow> concat (map (\<lambda>r. if P (hd r) then r else h) (maximal_runs P (x # xs)))
     = x # concat (map (\<lambda>r. if P (hd r) then r else h) (maximal_runs P xs))"
proof (cases "maximal_runs P xs")
  case Nil
  assume "P x"
  with Nil show ?thesis by simp
next
  case (Cons r rs)
  assume "P x"
  with Cons show ?thesis by simp
qed

lemma maximal_runs_outside:
  "\<not> P x \<Longrightarrow> maximal_runs P (x # xs)
     = (x # takeWhile (\<lambda>y. \<not> P y) xs) # maximal_runs P (dropWhile (\<lambda>y. \<not> P y) xs)"
proof (induction xs arbitrary: x)
  case Nil
  then show ?case by simp
next
  case (Cons y ys)
  show ?case
  proof (cases "P y")
    case True
    obtain r rs where r: "maximal_runs P (y # ys) = r # rs"
      by (cases "maximal_runs P (y # ys)") (simp_all del: maximal_runs.simps)
    with maximal_runs_hd [OF r] have "hd r = y" by simp
    with True Cons.prems r have "maximal_runs P (x # y # ys) = [x] # maximal_runs P (y # ys)"
      by (simp del: maximal_runs.simps add: maximal_runs.simps(2) [of P x "y # ys"])
    with True show ?thesis by simp
  next
    case False
    from Cons.IH [OF False]
    have "maximal_runs P (y # ys)
            = (y # takeWhile (\<lambda>y. \<not> P y) ys) # maximal_runs P (dropWhile (\<lambda>y. \<not> P y) ys)" .
    with False Cons.prems show ?thesis
      by (simp del: maximal_runs.simps add: maximal_runs.simps(2) [of P x "y # ys"])
  qed
qed

lemma replace_runs_hyphenated:
  "replace_runs s = concat (map (\<lambda>r. if az09 (hd r) then r else ''-'') (maximal_runs az09 s))"
proof (induction s rule: replace_runs.induct)
  case 1
  show ?case by simp
next
  case (2 c cs)
  show ?case
  proof (cases "az09 c")
    case True
    with 2 show ?thesis
      by (simp del: maximal_runs.simps add: maximal_runs_inside)
  next
    case False
    with 2 show ?thesis
      by (simp del: maximal_runs.simps add: maximal_runs_outside)
  qed
qed

subsection \<open>Split and join\<close>

lemma js_join_split: "js_join sep (js_split sep s) = s"
proof (induction s)
  case Nil
  show ?case by simp
next
  case (Cons c s)
  obtain w ws where w: "js_split sep s = w # ws"
    by (cases "js_split sep s") simp_all
  with Cons show ?case by (cases ws) auto
qed

lemma js_join_append:
  "xs \<noteq> [] \<Longrightarrow> ys \<noteq> [] \<Longrightarrow> js_join sep (xs @ ys) = js_join sep xs @ sep # js_join sep ys"
proof (induction xs rule: js_join.induct)
  case (1 sep)
  then show ?case by simp
next
  case (2 sep w)
  then show ?case by (cases ys) simp_all
next
  case (3 sep w v va)
  then show ?case by simp
qed

subsection \<open>The loop computes the outline\<close>

lemma scan_outline:
  "close_section (foldl scan_line s ls) =
     (case currentSection s of
        None \<Rightarrow> sections s @ outline ls
      | Some cs \<Rightarrow>
          sections s
          @ [cs\<lparr>section_content :=
                 js_join CHR 0x0A (currentContent s @ takeWhile (\<lambda>l. \<not> is_heading l) ls)\<rparr>]
          @ outline (dropWhile (\<lambda>l. \<not> is_heading l) ls))"
proof (induction ls arbitrary: s)
  case Nil
  show ?case by (simp add: close_section_def split: option.splits)
next
  case (Cons l ls)
  show ?case
  proof (cases "headingMatch l")
    case None
    then have nh: "\<not> is_heading l" by (simp add: is_heading_def)
    show ?thesis
    proof (cases "currentSection s")
      case n: None
      with None have "scan_line s l = s" by (simp add: scan_line_def)
      with Cons.IH [of s] n None show ?thesis by simp
    next
      case (Some cs)
      with None have "scan_line s l = s\<lparr>currentContent := currentContent s @ [l]\<rparr>"
        by (simp add: scan_line_def)
      with Cons.IH [of "s\<lparr>currentContent := currentContent s @ [l]\<rparr>"] Some nh
      show ?thesis by simp
    qed
  next
    case (Some ht)
    obtain hashes t where ht: "ht = (hashes, t)" by (cases ht)
    from Some have h: "is_heading l" by (simp add: is_heading_def)
    let ?s' = "\<lparr>sections = close_section s,
           currentSection =
             Some \<lparr>level = length hashes, title = t, section_content = [], section_id = slug t\<rparr>,
           currentContent = []\<rparr>"
    have step: "scan_line s l = ?s'" using Some ht by (simp add: scan_line_def)
    have "close_section (foldl scan_line s (l # ls)) = close_section (foldl scan_line ?s' ls)"
      by (simp add: step)
    also have "\<dots> = close_section s
        @ [\<lparr>level = length hashes, title = t,
            section_content = js_join CHR 0x0A (takeWhile (\<lambda>l. \<not> is_heading l) ls),
            section_id = slug t\<rparr>]
        @ outline (dropWhile (\<lambda>l. \<not> is_heading l) ls)"
      by (simp add: Cons.IH [of ?s'])
    also have "\<dots> = close_section s @ outline (l # ls)"
      using Some ht by simp
    finally show ?thesis
      using h by (simp add: close_section_def split: option.splits)
  qed
qed

lemma parsePlan_outline: "parsePlan markdown = outline (js_split CHR 0x0A markdown)"
  by (simp add: parsePlan_def scan_outline)

lemma outline_ids: "list_all (\<lambda>s. section_id s = slug (title s)) (outline ls)"
  by (induction ls rule: outline.induct) (auto split: option.splits)

lemma outline_length: "length (outline ls) = length (filter is_heading ls)"
proof (induction ls rule: outline.induct)
  case 1
  show ?case by simp
next
  case (2 l ls)
  have f: "filter is_heading ls = filter is_heading (dropWhile (\<lambda>l. \<not> is_heading l) ls)"
    by (induction ls) auto
  show ?case
  proof (cases "headingMatch l")
    case None
    with 2 show ?thesis by (simp add: is_heading_def)
  next
    case (Some ht)
    obtain hashes t where ht: "ht = (hashes, t)" by (cases ht)
    from Some have h: "is_heading l" by (simp add: is_heading_def)
    from 2(2) [OF Some ht [symmetric]]
    have "length (outline (dropWhile (\<lambda>l. \<not> is_heading l) ls))
            = length (filter is_heading ls)"
      using f by simp
    with Some ht h show ?thesis by simp
  qed
qed

lemma ehb_tail: "every_heading_has_body (l # ls) \<Longrightarrow> every_heading_has_body ls"
  by (cases ls) simp_all

lemma ehb_dropWhile: "every_heading_has_body ls \<Longrightarrow> every_heading_has_body (dropWhile P ls)"
proof (induction ls)
  case Nil
  then show ?case by simp
next
  case (Cons l ls)
  from ehb_tail [OF Cons.prems] Cons.IH Cons.prems show ?case by simp
qed

lemma ehb_heading:
  "is_heading l \<Longrightarrow> every_heading_has_body (l # ls) \<Longrightarrow> ls \<noteq> [] \<and> \<not> is_heading (hd ls)"
  by (cases ls) simp_all

lemma filter_after_preamble:
  "filter is_heading (dropWhile (\<lambda>l. \<not> is_heading l) ls) = filter is_heading ls"
  by (induction ls) auto

lemma interleave_heading:
  assumes "headingMatch l = Some (hashes, t)"
  shows "interleave (filter is_heading (l # ls)) (outline (l # ls)) =
           [l, js_join CHR 0x0A (takeWhile (\<lambda>l. \<not> is_heading l) ls)]
           @ interleave (filter is_heading (dropWhile (\<lambda>l. \<not> is_heading l) ls))
               (outline (dropWhile (\<lambda>l. \<not> is_heading l) ls))"
proof -
  from assms have "is_heading l" by (simp add: is_heading_def)
  with assms show ?thesis
    by (simp add: interleave_def filter_after_preamble)
qed

lemma interleave_plain:
  assumes "headingMatch l = None"
  shows "interleave (filter is_heading (l # ls)) (outline (l # ls)) =
           interleave (filter is_heading ls) (outline ls)"
  using assms by (simp add: is_heading_def)

lemma roundtrip_lines:
  "every_heading_has_body ls \<Longrightarrow>
     js_join CHR 0x0A (interleave (filter is_heading ls) (outline ls))
       = js_join CHR 0x0A (dropWhile (\<lambda>l. \<not> is_heading l) ls)"
proof (induction ls rule: outline.induct)
  case 1
  show ?case by (simp add: interleave_def)
next
  case (2 l ls)
  show ?case
  proof (cases "headingMatch l")
    case None
    then have nh: "\<not> is_heading l" by (simp add: is_heading_def)
    from 2(1) [OF None] ehb_tail [OF 2(3)]
    have "js_join CHR 0x0A (interleave (filter is_heading ls) (outline ls))
            = js_join CHR 0x0A (dropWhile (\<lambda>l. \<not> is_heading l) ls)" .
    moreover have "dropWhile (\<lambda>l. \<not> is_heading l) (l # ls) = dropWhile (\<lambda>l. \<not> is_heading l) ls"
      using nh by simp
    ultimately show ?thesis by (simp only: interleave_plain [OF None])
  next
    case (Some ht)
    obtain hashes t where ht: "ht = (hashes, t)" by (cases ht)
    from Some have h: "is_heading l" by (simp add: is_heading_def)
    let ?body = "takeWhile (\<lambda>l. \<not> is_heading l) ls"
    let ?rest = "dropWhile (\<lambda>l. \<not> is_heading l) ls"
    let ?flat = "interleave (filter is_heading ?rest) (outline ?rest)"
    from ehb_heading [OF h 2(3)] have body: "?body \<noteq> []" by (cases ls) simp_all
    have ls: "ls = ?body @ ?rest" by simp
    have il: "interleave (filter is_heading (l # ls)) (outline (l # ls))
                = [l, js_join CHR 0x0A ?body] @ ?flat"
    proof (rule interleave_heading)
      show "headingMatch l = Some (hashes, t)" using Some ht by simp
    qed
    have head: "js_join CHR 0x0A [l, js_join CHR 0x0A ?body] = js_join CHR 0x0A (l # ?body)"
      using body by (cases ?body) simp_all
    have ih: "js_join CHR 0x0A ?flat = js_join CHR 0x0A (dropWhile (\<lambda>l. \<not> is_heading l) ?rest)"
      by (rule 2(2) [OF Some ht [symmetric]]) (rule ehb_dropWhile, rule ehb_tail, rule 2(3))
    show ?thesis
    proof (cases "?rest = []")
      case True
      have "?flat = []" unfolding True by (simp add: interleave_def)
      moreover have "ls = ?body" using ls unfolding True by simp
      ultimately have "js_join CHR 0x0A (interleave (filter is_heading (l # ls)) (outline (l # ls)))
                         = js_join CHR 0x0A (l # ls)"
        using il head by simp
      with h show ?thesis by simp
    next
      case False
      then obtain r rs where r: "?rest = r # rs" by (cases ?rest) simp_all
      then have hr: "is_heading r" using hd_dropWhile [of "\<lambda>l. \<not> is_heading l" ls] False by auto
      then obtain hashes' t' where m: "headingMatch r = Some (hashes', t')"
        by (auto simp: is_heading_def)
      have flat: "?flat \<noteq> []"
        unfolding r by (simp only: interleave_heading [OF m]) simp
      have ih': "js_join CHR 0x0A ?flat = js_join CHR 0x0A ?rest"
        using ih by simp
      have "js_join CHR 0x0A ([l, js_join CHR 0x0A ?body] @ ?flat)
              = js_join CHR 0x0A [l, js_join CHR 0x0A ?body] @ CHR 0x0A # js_join CHR 0x0A ?flat"
        using flat by (intro js_join_append) simp_all
      also have "\<dots> = js_join CHR 0x0A (l # ?body) @ CHR 0x0A # js_join CHR 0x0A ?rest"
        by (simp only: head ih')
      also have "\<dots> = js_join CHR 0x0A ((l # ?body) @ ?rest)"
        using False by (intro js_join_append [symmetric]) simp_all
      also have "\<dots> = js_join CHR 0x0A (l # ls)" by simp
      finally have "js_join CHR 0x0A (interleave (filter is_heading (l # ls)) (outline (l # ls)))
                         = js_join CHR 0x0A (l # ls)"
        by (simp only: il)
      with h show ?thesis by simp
    qed
  qed
qed

text \<open>
  C2 (amended). The id of every section is its title in lower case with each maximal
  run of characters outside \<open>[a-z0-9]\<close> replaced by one hyphen. A run at the end of
  the title is replaced like any other: \<open>Step 1: Build!\<close> gives \<open>step-1-build-\<close>,
  with a hyphen for the exclamation mark.
\<close>

theorem slug_replaces_runs_by_hyphens:
  "slug t = hyphenated t
   \<and> list_all (\<lambda>s. section_id s = hyphenated (title s)) (parsePlan markdown)
   \<and> slug ''Step 1: Build!'' = ''step-1-build-''
   \<and> map section_id (parsePlan ''# Step 1: Build!'') = [''step-1-build-'']"
proof -
  have 1: "slug t = hyphenated t" for t
    by (simp add: slug_def hyphenated_def replace_runs_hyphenated)
  have 2: "list_all (\<lambda>s. section_id s = hyphenated (title s)) (parsePlan markdown)"
    using outline_ids [of "js_split CHR 0x0A markdown"]
    by (simp add: parsePlan_outline 1)
  have 3: "slug ''Step 1: Build!'' = ''step-1-build-''" by code_simp
  have 4: "map section_id (parsePlan ''# Step 1: Build!'') = [''step-1-build-'']" by code_simp
  from 1 2 3 4 show ?thesis by blast
qed

text \<open>
  C2 as stated fails at its own example: the id of \<open>Step 1: Build!\<close> is not
  \<open>step-1-build\<close>.
\<close>

theorem slug_example_counterexample:
  "slug ''Step 1: Build!'' \<noteq> ''step-1-build''
   \<and> map section_id (parsePlan ''# Step 1: Build!'') \<noteq> [''step-1-build'']"
  by code_simp

text \<open>
  C4 (amended). There is one section for each heading line, and when every heading
  line is followed by at least one line that is not a heading, putting each heading
  line back before the content of its section and joining everything by line feeds
  gives the input without the lines before its first heading.
\<close>

theorem roundtrip_when_bodies_nonempty:
  "length (parsePlan markdown) = length (heading_lines markdown)
   \<and> (every_heading_has_body (js_split CHR 0x0A markdown) \<longrightarrow>
        reassemble (heading_lines markdown) (parsePlan markdown) = without_preamble markdown)"
  by (simp add: parsePlan_outline heading_lines_def outline_length reassemble_def
      without_preamble_def roundtrip_lines)

text \<open>
  C4 as stated fails when a heading has no line of its own below it: the content of
  such a section is the empty string, as it is for a section of one empty line. The
  two inputs below have the same sections and the same heading lines and differ in
  their lines, so no reconstruction from sections and heading lines returns both; the
  reconstruction by joining returns neither.
\<close>

theorem roundtrip_counterexample:
  "reassemble (heading_lines ''# A\<newline># B'') (parsePlan ''# A\<newline># B'')
     \<noteq> without_preamble ''# A\<newline># B''
   \<and> parsePlan ''# A\<newline># B'' = parsePlan ''# A\<newline>\<newline># B''
   \<and> heading_lines ''# A\<newline># B'' = heading_lines ''# A\<newline>\<newline># B''
   \<and> without_preamble ''# A\<newline># B'' \<noteq> without_preamble ''# A\<newline>\<newline># B''"
  by code_simp

theorem roundtrip_when_bodies_nonempty_witness:
  "every_heading_has_body (js_split CHR 0x0A ''intro\<newline># A\<newline>x\<newline>\<newline>## B\<newline>y\<newline>'')
   \<and> reassemble (heading_lines ''intro\<newline># A\<newline>x\<newline>\<newline>## B\<newline>y\<newline>'')
         (parsePlan ''intro\<newline># A\<newline>x\<newline>\<newline>## B\<newline>y\<newline>'')
       = without_preamble ''intro\<newline># A\<newline>x\<newline>\<newline>## B\<newline>y\<newline>''
   \<and> without_preamble ''intro\<newline># A\<newline>x\<newline>\<newline>## B\<newline>y\<newline>''
       = ''# A\<newline>x\<newline>\<newline>## B\<newline>y\<newline>''"
proof -
  have 1: "every_heading_has_body
             (js_split CHR 0x0A ''intro\<newline># A\<newline>x\<newline>\<newline>## B\<newline>y\<newline>'')"
    by code_simp
  have 2: "without_preamble ''intro\<newline># A\<newline>x\<newline>\<newline>## B\<newline>y\<newline>''
       = ''# A\<newline>x\<newline>\<newline>## B\<newline>y\<newline>''"
    by code_simp
  from roundtrip_when_bodies_nonempty
    [of "''intro\<newline># A\<newline>x\<newline>\<newline>## B\<newline>y\<newline>''"] 1 2
  show ?thesis by blast
qed

end
